theory Spec2Isabelle
  imports Complex_Main "HOL-Library.Word" "HOL-Library.Log_Nat" "HOL-Library.Multiset"
begin

unbundle bit_operations_syntax

section \<open>JavaScript numbers\<close>

text \<open>
  The sampler computes with JavaScript \<^verbatim>\<open>number\<close>s: IEEE 754 binary64 values. A finite
  number is modelled by the rational it denotes, the two infinities and the not-a-number
  value are constructors of their own. The sign of zero is not tracked: the source never
  divides by a computed zero and never calls \<^verbatim>\<open>Object.is\<close>, so \<open>+0\<close> and \<open>-0\<close>
  behave alike everywhere in it.

  Every arithmetic operation computes the exact rational result and rounds it with
  \<open>round64\<close>: to the nearest binary64 value, ties to the even significand, with gradual
  underflow (the grid never gets finer than \<open>2 powi -1074\<close>) and overflow to an infinity.
\<close>

datatype number = NaN | PosInf | NegInf | Fin rat

definition rne :: "rat \<Rightarrow> int" where
  "rne x = (let f = \<lfloor>x\<rfloor>; d = x - of_int f in
            if d < 1 / 2 then f else if 1 / 2 < d then f + 1
            else if even f then f else f + 1)"

definition ilog2 :: "rat \<Rightarrow> int" where
  "ilog2 q = (let (a, b) = quotient_of q; k = bitlen a - bitlen b in
              if 2 powi k \<le> q then k else k - 1)"

definition round64 :: "rat \<Rightarrow> number" where
  "round64 q = (let t = max (ilog2 \<bar>q\<bar> - 52) (- 1074);
                    m = rne (\<bar>q\<bar> / 2 powi t)
                in if 1024 < bitlen m + t then (if 0 < q then PosInf else NegInf)
                   else Fin (sgn q * (of_int m * 2 powi t)))"

definition is_double :: "number \<Rightarrow> bool" where
  "is_double x = (case x of Fin q \<Rightarrow> round64 q = Fin q | _ \<Rightarrow> True)"

fun js_add :: "number \<Rightarrow> number \<Rightarrow> number" where
  "js_add (Fin a) (Fin b) = round64 (a + b)"
| "js_add NaN y = NaN"
| "js_add x NaN = NaN"
| "js_add PosInf NegInf = NaN"
| "js_add NegInf PosInf = NaN"
| "js_add PosInf y = PosInf"
| "js_add NegInf y = NegInf"
| "js_add (Fin a) y = y"

fun js_sub :: "number \<Rightarrow> number \<Rightarrow> number" where
  "js_sub (Fin a) (Fin b) = round64 (a - b)"
| "js_sub NaN y = NaN"
| "js_sub x NaN = NaN"
| "js_sub PosInf PosInf = NaN"
| "js_sub NegInf NegInf = NaN"
| "js_sub PosInf y = PosInf"
| "js_sub NegInf y = NegInf"
| "js_sub (Fin a) PosInf = NegInf"
| "js_sub (Fin a) NegInf = PosInf"

definition signed_inf :: "bool \<Rightarrow> number" where
  "signed_inf positive = (if positive then PosInf else NegInf)"

fun js_mul :: "number \<Rightarrow> number \<Rightarrow> number" where
  "js_mul (Fin a) (Fin b) = round64 (a * b)"
| "js_mul NaN y = NaN"
| "js_mul x NaN = NaN"
| "js_mul (Fin a) PosInf = (if a = 0 then NaN else signed_inf (0 < a))"
| "js_mul (Fin a) NegInf = (if a = 0 then NaN else signed_inf (a < 0))"
| "js_mul PosInf (Fin b) = (if b = 0 then NaN else signed_inf (0 < b))"
| "js_mul NegInf (Fin b) = (if b = 0 then NaN else signed_inf (b < 0))"
| "js_mul PosInf PosInf = PosInf"
| "js_mul NegInf NegInf = PosInf"
| "js_mul PosInf NegInf = NegInf"
| "js_mul NegInf PosInf = NegInf"

text \<open>
  Division. The only divisors in the source are array lengths, so a zero divisor is
  \<open>+0\<close>: a non-zero finite number divided by it is the infinity of the dividend's sign,
  and \<open>0 / 0\<close> is not a number.
\<close>

fun js_div :: "number \<Rightarrow> number \<Rightarrow> number" where
  "js_div (Fin a) (Fin b) =
     (if b = 0 then (if a = 0 then NaN else signed_inf (0 < a)) else round64 (a / b))"
| "js_div NaN y = NaN"
| "js_div x NaN = NaN"
| "js_div (Fin a) y = Fin 0"
| "js_div PosInf (Fin b) = signed_inf (0 \<le> b)"
| "js_div NegInf (Fin b) = signed_inf (b < 0)"
| "js_div x y = NaN"

fun Math_abs :: "number \<Rightarrow> number" where
  "Math_abs (Fin a) = Fin \<bar>a\<bar>"
| "Math_abs NaN = NaN"
| "Math_abs x = PosInf"

fun Math_floor :: "number \<Rightarrow> number" where
  "Math_floor (Fin a) = Fin (of_int \<lfloor>a\<rfloor>)"
| "Math_floor x = x"

fun Math_max :: "number \<Rightarrow> number \<Rightarrow> number" where
  "Math_max (Fin a) (Fin b) = Fin (max a b)"
| "Math_max NaN y = NaN"
| "Math_max x NaN = NaN"
| "Math_max PosInf y = PosInf"
| "Math_max x PosInf = PosInf"
| "Math_max NegInf y = y"
| "Math_max x NegInf = x"

text \<open>
  \<^verbatim>\<open>Math.pow(x, 2)\<close>, the only power the source takes. ECMA-262 fixes its value at the
  zeros, the infinities and NaN and leaves the rest implementation-approximated; the model
  takes the correctly rounded square there.
\<close>

definition Math_pow_2 :: "number \<Rightarrow> number" where
  "Math_pow_2 x = js_mul x x"

text \<open>
  \<^verbatim>\<open>Math.tanh\<close>. ECMA-262 fixes \<open>tanh NaN = NaN\<close>, \<open>tanh 0 = 0\<close> and
  \<open>tanh (\<plusminus>\<infinity>) = \<plusminus>1\<close>; at every other argument the result is an
  implementation-approximated number. The approximation is a parameter \<open>th\<close> of the
  model; all that is built in is that the result is a binary64 value between -1 and 1, as
  every approximation of the hyperbolic tangent is.
\<close>

fun Math_tanh :: "(rat \<Rightarrow> rat) \<Rightarrow> number \<Rightarrow> number" where
  "Math_tanh th (Fin x) = (if x = 0 then Fin 0 else round64 (max (- 1) (min 1 (th x))))"
| "Math_tanh th NaN = NaN"
| "Math_tanh th PosInf = Fin 1"
| "Math_tanh th NegInf = Fin (- 1)"

text \<open>The test \<^verbatim>\<open>x > 0\<close>, false for NaN.\<close>

definition above_zero :: "number \<Rightarrow> bool" where
  "above_zero x = (case x of PosInf \<Rightarrow> True | Fin d \<Rightarrow> 0 < d | _ \<Rightarrow> False)"

text \<open>\<^verbatim>\<open>x || 0\<close>: the falsy numbers are the zeros and NaN.\<close>

definition or_zero :: "number \<Rightarrow> number" where
  "or_zero x = (if x = NaN \<or> x = Fin 0 then Fin 0 else x)"

text \<open>
  What the source throws. The two "not initialized" errors are plain \<^verbatim>\<open>Error\<close> objects
  that differ in their message and name the model; \<open>ProviderError\<close> stands for whatever
  the external transformers pipeline throws, with an opaque payload.
\<close>

datatype SupportedModels =
    Xenova_bert_base_uncased
  | Xenova_gpt2
  | Xenova_distilbert_base_uncased
  | Xenova_all_MiniLM_L6_v2
  | Xenova_sentence_transformers_all_MiniLM_L6_v2

datatype js_error =
    Error_not_initialized SupportedModels
  | Error_not_initialized_for_embedding SupportedModels
  | ProviderError nat
  | RangeError

fun ModelNotInitialized :: "js_error \<Rightarrow> bool" where
  "ModelNotInitialized (Error_not_initialized m) = True"
| "ModelNotInitialized (Error_not_initialized_for_embedding m) = True"
| "ModelNotInitialized e = False"

text \<open>\<^verbatim>\<open>BigInt(x)\<close> throws a RangeError unless \<open>x\<close> is an integral number.\<close>

fun BigInt :: "number \<Rightarrow> js_error + int" where
  "BigInt (Fin a) = (if of_int \<lfloor>a\<rfloor> = a then Inr \<lfloor>a\<rfloor> else Inl RangeError)"
| "BigInt x = Inl RangeError"

text \<open>\<^verbatim>\<open>a ** b\<close> on BigInts throws a RangeError for a negative exponent.\<close>

definition BigInt_pow :: "int \<Rightarrow> int \<Rightarrow> js_error + int" where
  "BigInt_pow a b = (if b < 0 then Inl RangeError else Inr (a ^ nat b))"


section \<open>Strings\<close>

text \<open>
  A JavaScript string is a sequence of 16-bit code units; \<^verbatim>\<open>s.length\<close> counts code
  units and \<^verbatim>\<open>s.charCodeAt(i)\<close> reads one. The string iterator behind
  \<^verbatim>\<open>for (const c of s)\<close> and \<^verbatim>\<open>Array.from(s)\<close> yields code points: a high surrogate
  followed by a low surrogate is one element of two code units, every other code unit
  (an unpaired surrogate too) is an element of its own.
\<close>

type_synonym jsstring = "16 word list"

definition is_high_surrogate :: "16 word \<Rightarrow> bool" where
  "is_high_surrogate c = (0xD800 \<le> c \<and> c \<le> 0xDBFF)"

definition is_low_surrogate :: "16 word \<Rightarrow> bool" where
  "is_low_surrogate c = (0xDC00 \<le> c \<and> c \<le> 0xDFFF)"

fun Array_from :: "jsstring \<Rightarrow> jsstring list" where
  "Array_from [] = []"
| "Array_from [c] = [[c]]"
| "Array_from (c # d # cs) =
     (if is_high_surrogate c \<and> is_low_surrogate d then [c, d] # Array_from cs
      else [c] # Array_from (d # cs))"

text \<open>\<^verbatim>\<open>s.includes(t)\<close>: \<open>t\<close> occurs in \<open>s\<close> as a contiguous run of code units.\<close>

fun includes_str :: "jsstring \<Rightarrow> jsstring \<Rightarrow> bool" where
  "includes_str [] t = (t = [])"
| "includes_str (c # cs) t = (take (length t) (c # cs) = t \<or> includes_str cs t)"

text \<open>\<^verbatim>\<open>tape.replace(/\|/g, '')\<close>: every vertical bar (code unit 0x7C) is removed.\<close>

definition strip_separators :: "jsstring \<Rightarrow> jsstring" where
  "strip_separators tape = filter (\<lambda>c. c \<noteq> 0x7C) tape"

section \<open>The prime registry and the default tape\<close>

record EmojiPrimeMapping =
  emoji :: jsstring
  prime :: int
  meaning :: string
  vibe :: string

text \<open>
  The ten glyphs are U+1F3A9, U+1F3B2, U+1F522, U+1F3B6, U+1F3B7, U+1F4DC, U+1F9EC,
  U+1F3AF, U+1F680 and U+1FA90, each a surrogate pair.
\<close>

definition INTRINSIC_PRIMES :: "EmojiPrimeMapping list" where
  "INTRINSIC_PRIMES =
    [\<lparr>emoji = [0xD83C, 0xDFA9], prime = 2, meaning = ''Creativity'',
      vibe = ''Initialize state or vector''\<rparr>,
     \<lparr>emoji = [0xD83C, 0xDFB2], prime = 3, meaning = ''Chaos'', vibe = ''Branch/call''\<rparr>,
     \<lparr>emoji = [0xD83D, 0xDD22], prime = 5, meaning = ''Structure'',
      vibe = ''Load/store data''\<rparr>,
     \<lparr>emoji = [0xD83C, 0xDFB6], prime = 7, meaning = ''Harmony'',
      vibe = ''Arithmetic operations''\<rparr>,
     \<lparr>emoji = [0xD83C, 0xDFB7], prime = 11, meaning = ''Expression'',
      vibe = ''Output/store''\<rparr>,
     \<lparr>emoji = [0xD83D, 0xDCDC], prime = 13, meaning = ''Legacy'',
      vibe = ''Self-description''\<rparr>,
     \<lparr>emoji = [0xD83E, 0xDDEC], prime = 17, meaning = ''Evolution'',
      vibe = ''LLM interaction''\<rparr>,
     \<lparr>emoji = [0xD83C, 0xDFAF], prime = 19, meaning = ''Focus'', vibe = ''Comparison''\<rparr>,
     \<lparr>emoji = [0xD83D, 0xDE80], prime = 23, meaning = ''Launch'',
      vibe = ''Deploy contract''\<rparr>,
     \<lparr>emoji = [0xD83E, 0xDE90], prime = 29, meaning = ''System'',
      vibe = ''Phase control''\<rparr>]"

definition EMOJI_BLOCK_TAPE :: jsstring where
  "EMOJI_BLOCK_TAPE =
    [0xD83E, 0xDE90, 0xD83C, 0xDFA9, 0xD83D, 0xDD22, 0xD83C, 0xDFB2, 0xD83C, 0xDFB6,
     0xD83C, 0xDFB7, 0xD83D, 0xDCDC, 0x7C,
     0xD83E, 0xDE90, 0xD83C, 0xDFB7, 0xD83E, 0xDDEC, 0xD83C, 0xDFB2, 0xD83D, 0xDCDC, 0x7C,
     0xD83E, 0xDE90, 0xD83C, 0xDFB6, 0xD83D, 0xDD22, 0xD83C, 0xDFAF, 0xD83C, 0xDFB2,
     0xD83D, 0xDCDC, 0xD83D, 0xDE80]"

text \<open>
  \<^verbatim>\<open>new Map(INTRINSIC_PRIMES.map(p => [p.emoji, p.prime]))\<close>: the entries are set one
  after the other, a later entry for the same key replacing an earlier one.
\<close>

definition primeMap :: "jsstring \<rightharpoonup> int" where
  "primeMap = foldl (\<lambda>m p. m(emoji p \<mapsto> prime p)) Map.empty INTRINSIC_PRIMES"

section \<open>The sampler: model cache, tokenizer, embedder\<close>

text \<open>
  The sampler object holds two maps from model names to pipeline handles. A handle is the
  function the external library returns: called on a tape it yields the pooled vector or
  throws. \<open>initializeModel\<close> takes the outcome of its \<^verbatim>\<open>await pipeline(...)\<close> call as
  an argument; when the call throws, the error is rethrown and the maps stay as they were.
\<close>

type_synonym embedder = "jsstring \<Rightarrow> nat + number list"

record LLMEmojiSampler =
  tokenizers :: "SupportedModels \<rightharpoonup> embedder"
  embedders :: "SupportedModels \<rightharpoonup> embedder"

definition new_LLMEmojiSampler :: LLMEmojiSampler where
  "new_LLMEmojiSampler = \<lparr>tokenizers = Map.empty, embedders = Map.empty\<rparr>"

definition initializeModel ::
  "nat + embedder \<Rightarrow> LLMEmojiSampler \<Rightarrow> SupportedModels \<Rightarrow> js_error + LLMEmojiSampler" where
  "initializeModel pipeline s modelName =
     (case pipeline of
        Inl e \<Rightarrow> Inl (ProviderError e)
      | Inr embedder \<Rightarrow>
          Inr (s\<lparr>embedders := (embedders s)(modelName \<mapsto> embedder),
                 tokenizers := (tokenizers s)(modelName \<mapsto> embedder)\<rparr>))"

record TokenizedTape_metadata =
  sequenceLength :: nat
  vocabSize :: nat
  unknownTokens :: nat

record TokenizedTape =
  model :: SupportedModels
  tokens :: "int list"
  tokenStrings :: "jsstring list"
  metadata :: TokenizedTape_metadata

text \<open>
  The hash of one glyph. \<^verbatim>\<open>hash << 5\<close> converts \<open>hash\<close> to a signed 32-bit integer,
  shifts and reads the result as signed 32 bits again; the subtraction and the addition
  are exact on numbers of this size; \<^verbatim>\<open>& 0xffffffff\<close> converts both operands to signed
  32 bits and yields a signed 32-bit integer.
\<close>

definition shift_left_5 :: "int \<Rightarrow> int" where
  "shift_left_5 h = sint (push_bit 5 (word_of_int h :: 32 word))"

definition bit_and :: "int \<Rightarrow> int \<Rightarrow> int" where
  "bit_and x y = sint ((word_of_int x :: 32 word) AND word_of_int y)"

definition hash_step :: "int \<Rightarrow> 16 word \<Rightarrow> int" where
  "hash_step hash c = bit_and (shift_left_5 hash - hash + uint c) 0xffffffff"

definition token_id :: "jsstring \<Rightarrow> int" where
  "token_id glyph = \<bar>foldl hash_step 0 glyph\<bar> mod 50000"

record simulated_tokens =
  ids :: "int list"
  strings :: "jsstring list"

definition simulateTokenization :: "jsstring \<Rightarrow> SupportedModels \<Rightarrow> simulated_tokens" where
  "simulateTokenization tape modelName =
     (let emojis = Array_from tape in \<lparr>ids = map token_id emojis, strings = emojis\<rparr>)"

text \<open>The marker \<^verbatim>\<open>'[UNK]'\<close> as code units.\<close>

definition UNK :: jsstring where
  "UNK = [0x5B, 0x55, 0x4E, 0x4B, 0x5D]"

definition tokenizeTape ::
  "LLMEmojiSampler \<Rightarrow> SupportedModels \<Rightarrow> jsstring option \<Rightarrow> js_error + TokenizedTape" where
  "tokenizeTape s modelName tape_arg =
     (let tape = (case tape_arg of None \<Rightarrow> EMOJI_BLOCK_TAPE | Some t \<Rightarrow> t) in
      case tokenizers s modelName of
        None \<Rightarrow> Inl (Error_not_initialized modelName)
      | Some tokenizer \<Rightarrow>
          (let toks = simulateTokenization tape modelName in
           Inr \<lparr>model = modelName, tokens = ids toks, tokenStrings = strings toks,
                metadata = \<lparr>sequenceLength = length (ids toks), vocabSize = 50000,
                  unknownTokens = length (filter (\<lambda>t. includes_str t UNK) (strings toks))\<rparr>\<rparr>))"

text \<open>
  The embedding result. Its \<^verbatim>\<open>layers\<close> (drawn with \<^verbatim>\<open>Math.random\<close>), their count and
  the measured processing time are left out: nothing below reads them.
\<close>

record LLMEmbeddings =
  model :: SupportedModels
  pooledEmbedding :: "number list"
  hiddenSize :: nat

definition embedTape ::
  "LLMEmojiSampler \<Rightarrow> SupportedModels \<Rightarrow> jsstring option \<Rightarrow> js_error + LLMEmbeddings" where
  "embedTape s modelName tape_arg =
     (let tape = (case tape_arg of None \<Rightarrow> EMOJI_BLOCK_TAPE | Some t \<Rightarrow> t) in
      case embedders s modelName of
        None \<Rightarrow> Inl (Error_not_initialized_for_embedding modelName)
      | Some embedder \<Rightarrow>
          (case embedder tape of
             Inl e \<Rightarrow> Inl (ProviderError e)
           | Inr embedding \<Rightarrow>
               Inr \<lparr>model = modelName, pooledEmbedding = embedding,
                    hiddenSize = length embedding\<rparr>))"


section \<open>Mapping an embedding to the intrinsic primes\<close>

record PrimeMappedEmbedding =
  prime :: int
  emoji :: jsstring
  activation :: number
  normalizedActivation :: number
  rank :: nat

text \<open>\<^verbatim>\<open>xs.slice(start, end)\<close> for \<open>0 \<le> start \<le> end\<close>: both bounds are clamped to the length.\<close>

definition slice :: "'a list \<Rightarrow> nat \<Rightarrow> nat \<Rightarrow> 'a list" where
  "slice xs start end' = take (end' - start) (drop start xs)"

text \<open>
  \<^verbatim>\<open>Math.floor(embedding.length / targetDims)\<close> is the integer quotient of the two
  lengths: the division of two array lengths never rounds across an integer. The loop
  over \<open>i\<close> pushes one average per target dimension.
\<close>

definition reduceToPrimeDimensions :: "number list \<Rightarrow> nat \<Rightarrow> number list" where
  "reduceToPrimeDimensions embedding targetDims =
     (let chunkSize = length embedding div targetDims in
      map (\<lambda>i. let start = i * chunkSize;
                    end' = start + chunkSize;
                    chunk = slice embedding start end';
                    average = js_div (foldl js_add (Fin 0) chunk) (Fin (of_nat (length chunk)))
                in average)
        [0..<targetDims])"

text \<open>
  \<^verbatim>\<open>Array.prototype.sort\<close> with a comparator. The sort is stable (ECMA-262 since 2019)
  and an element moves behind another one only when the comparator returns a number
  above zero for the pair; a NaN result counts as zero. For a comparator that orders the
  elements consistently this fixes the result, and inserting the elements from the right
  computes it.
\<close>

definition comes_after :: "('a \<Rightarrow> 'a \<Rightarrow> number) \<Rightarrow> 'a \<Rightarrow> 'a \<Rightarrow> bool" where
  "comes_after cmp x y = above_zero (cmp x y)"

fun insert_sorted :: "('a \<Rightarrow> 'a \<Rightarrow> number) \<Rightarrow> 'a \<Rightarrow> 'a list \<Rightarrow> 'a list" where
  "insert_sorted cmp x [] = [x]"
| "insert_sorted cmp x (y # ys) =
     (if comes_after cmp x y then y # insert_sorted cmp x ys else x # y # ys)"

definition Array_sort :: "('a \<Rightarrow> 'a \<Rightarrow> number) \<Rightarrow> 'a list \<Rightarrow> 'a list" where
  "Array_sort cmp xs = foldr (insert_sorted cmp) xs []"

text \<open>
  \<^verbatim>\<open>reducedDimensions[index] || 0\<close>: an index past the end reads \<^verbatim>\<open>undefined\<close>, which
  is falsy.
\<close>

definition element_or_zero :: "number list \<Rightarrow> nat \<Rightarrow> number" where
  "element_or_zero xs index = (if index < length xs then or_zero (xs ! index) else Fin 0)"

definition compare_activation :: "PrimeMappedEmbedding \<Rightarrow> PrimeMappedEmbedding \<Rightarrow> number" where
  "compare_activation a b =
     js_sub (Math_abs (normalizedActivation b)) (Math_abs (normalizedActivation a))"

definition initial_mappings :: "(rat \<Rightarrow> rat) \<Rightarrow> number list \<Rightarrow> PrimeMappedEmbedding list" where
  "initial_mappings th reducedDimensions =
     map (\<lambda>(primeInfo, index).
            let activation = element_or_zero reducedDimensions index in
            \<lparr>prime = EmojiPrimeMapping.prime primeInfo,
             emoji = EmojiPrimeMapping.emoji primeInfo,
             activation = activation,
             normalizedActivation = Math_tanh th activation,
             rank = index\<rparr>)
       (zip INTRINSIC_PRIMES [0..<length INTRINSIC_PRIMES])"

definition assign_ranks :: "PrimeMappedEmbedding list \<Rightarrow> PrimeMappedEmbedding list" where
  "assign_ranks mappings =
     map (\<lambda>(mapping, index). mapping\<lparr>rank := index + 1\<rparr>) (zip mappings [0..<length mappings])"

definition mapEmbeddingsToPrimes :: "(rat \<Rightarrow> rat) \<Rightarrow> LLMEmbeddings \<Rightarrow> PrimeMappedEmbedding list" where
  "mapEmbeddingsToPrimes th embeddings =
     (let pooled = pooledEmbedding embeddings;
          primeCount = length INTRINSIC_PRIMES;
          reducedDimensions = reduceToPrimeDimensions pooled primeCount;
          mappings = initial_mappings th reducedDimensions
      in assign_ranks (Array_sort compare_activation mappings))"

section \<open>The G\"odel encodings\<close>

text \<open>
  The field \<^verbatim>\<open>size\<close> of the hierarchy is called \<open>size_h\<close> here, \<open>size\<close> being a constant
  of the logic.
\<close>

record GodelEncoding_hierarchy =
  size_h :: nat
  program :: jsstring
  cycles :: nat

record GodelEncoding =
  tapeSegment :: jsstring
  godelNumber :: int
  primeMappings :: "PrimeMappedEmbedding list"
  hierarchy :: GodelEncoding_hierarchy

text \<open>
  The exponent of one recognised glyph, as the number the source computes before it is
  converted with \<^verbatim>\<open>BigInt\<close>: \<^verbatim>\<open>primeMappings.find\<close> returns the first entry with the
  prime, and a missing entry gives the exponent 1.
\<close>

definition exponent_of :: "PrimeMappedEmbedding list \<Rightarrow> int \<Rightarrow> number" where
  "exponent_of pms p =
     (case find (\<lambda>m. prime m = p) pms of
        None \<Rightarrow> Fin 1
      | Some mapping \<Rightarrow>
          Math_max (Fin 1) (Math_floor (js_mul (Math_abs (normalizedActivation mapping)) (Fin 5))))"

text \<open>
  One turn of the loop over the code points of the segment: the running product, or the
  RangeError that \<^verbatim>\<open>BigInt(exponent)\<close> throws. A prime of 0 would be falsy and skipped.
\<close>

definition godel_step ::
  "PrimeMappedEmbedding list \<Rightarrow> js_error + int \<Rightarrow> jsstring \<Rightarrow> js_error + int" where
  "godel_step pms acc glyph =
     (case acc of
        Inl e \<Rightarrow> Inl e
      | Inr godel \<Rightarrow>
          (case primeMap glyph of
             None \<Rightarrow> Inr godel
           | Some p \<Rightarrow>
               if p = 0 then Inr godel
               else (case BigInt (exponent_of pms p) of
                       Inl e \<Rightarrow> Inl e
                     | Inr ex \<Rightarrow>
                         (case BigInt_pow p ex of
                            Inl e \<Rightarrow> Inl e
                          | Inr f \<Rightarrow> Inr (godel * f)))))"

definition encodeAsGodel ::
  "jsstring \<Rightarrow> PrimeMappedEmbedding list \<Rightarrow> js_error + GodelEncoding" where
  "encodeAsGodel segment pms =
     (case foldl (godel_step pms) (Inr 1) (Array_from segment) of
        Inl e \<Rightarrow> Inl e
      | Inr godel \<Rightarrow>
          Inr \<lparr>tapeSegment = segment, godelNumber = godel, primeMappings = pms,
               hierarchy = \<lparr>size_h = length segment, program = segment,
                             cycles = length segment div 7\<rparr>\<rparr>)"

text \<open>The display layer's simplified number: one raw prime per recognised glyph.\<close>

definition calculateGodelNumber :: "jsstring \<Rightarrow> int" where
  "calculateGodelNumber tape =
     foldl (\<lambda>godel glyph. case primeMap glyph of
                             None \<Rightarrow> godel
                           | Some p \<Rightarrow> if p = 0 then godel else godel * p)
       1 (Array_from (strip_separators tape))"

section \<open>Variance of the prime-2 activation across models\<close>

record universalAnchor_t =
  prime2Activation :: number
  consistencyScore :: number
  semanticDrift :: number

text \<open>
  Of a sampling result the variance reads the universal anchor only; the tape and the
  prime mapping are kept for reference, the other fields are left out.
\<close>

record LLMSamplingResult =
  tape :: jsstring
  primeMapping :: "PrimeMappedEmbedding list"
  universalAnchor :: universalAnchor_t

definition calculatePrime2Variance :: "LLMSamplingResult list \<Rightarrow> number" where
  "calculatePrime2Variance results =
     (let activations = map (\<lambda>r. prime2Activation (universalAnchor r)) results;
          mean = js_div (foldl (\<lambda>sum val. js_add sum val) (Fin 0) activations)
                   (Fin (of_nat (length activations)));
          variance = js_div
                       (foldl (\<lambda>sum val. js_add sum (Math_pow_2 (js_sub val mean)))
                          (Fin 0) activations)
                       (Fin (of_nat (length activations)))
      in variance)"


section \<open>Reference definitions\<close>

text \<open>
  The token id as the specification words it: a signed 32-bit rolling hash over the code
  units of the glyph, \<open>h \<leftarrow> (h \<cdot> 2\<^sup>5 - h + c)\<close> wrapped to the range from \<open>-2\<^sup>3\<^sup>1\<close>
  to \<open>2\<^sup>3\<^sup>1 - 1\<close>, then the absolute value modulo the vocabulary size.
\<close>

definition wrap_int32 :: "int \<Rightarrow> int" where
  "wrap_int32 x = (x + 2 ^ 31) mod 2 ^ 32 - 2 ^ 31"

definition spec_hash :: "jsstring \<Rightarrow> int" where
  "spec_hash glyph = foldl (\<lambda>h c. wrap_int32 (h * 2 ^ 5 - h + uint c)) 0 glyph"

definition spec_token_id :: "jsstring \<Rightarrow> int" where
  "spec_token_id glyph = \<bar>spec_hash glyph\<bar> mod 50000"

text \<open>
  A history of the sampler: the calls of \<open>initializeModel\<close> made on a fresh sampler, each
  with the outcome of its pipeline call. A call that throws leaves the sampler as it was.
  The initialization of a model has completed when one of its calls returned.
\<close>

type_synonym init_event = "SupportedModels \<times> (nat + embedder)"

fun run_events :: "LLMEmojiSampler \<Rightarrow> init_event list \<Rightarrow> LLMEmojiSampler" where
  "run_events s [] = s"
| "run_events s ((m, outcome) # evs) =
     (case initializeModel outcome s m of
        Inl e \<Rightarrow> run_events s evs
      | Inr s' \<Rightarrow> run_events s' evs)"

definition init_completed :: "SupportedModels \<Rightarrow> init_event list \<Rightarrow> bool" where
  "init_completed m evs = list_ex (\<lambda>(m', outcome). m' = m \<and> \<not> isl outcome) evs"

text \<open>
  The absolute value of a normalized activation, as a rational; it is read only where the
  activation is finite.
\<close>

definition abs_activation :: "PrimeMappedEmbedding \<Rightarrow> rat" where
  "abs_activation m = (case normalizedActivation m of Fin a \<Rightarrow> \<bar>a\<bar> | _ \<Rightarrow> 0)"

text \<open>
  Two notions for the proofs about the ranking: a rational lies on the grid of the
  smallest binary64 spacing, and a mapping carries a finite normalized activation on that
  grid with absolute value at most 1.
\<close>

definition on_grid :: "rat \<Rightarrow> bool" where
  "on_grid a = (\<exists>k::int. a = of_int k * 2 powi (- 1074))"

definition well_normalized :: "PrimeMappedEmbedding \<Rightarrow> bool" where
  "well_normalized m = (\<exists>a. normalizedActivation m = Fin a \<and> \<bar>a\<bar> \<le> 1 \<and> on_grid a)"

text \<open>
  What one glyph contributes to the product of \<open>encodeAsGodel\<close> (or the error raised for
  it), and what it contributes to the display layer's product.
\<close>

definition glyph_factor :: "PrimeMappedEmbedding list \<Rightarrow> jsstring \<Rightarrow> js_error + int" where
  "glyph_factor pms glyph =
     (case primeMap glyph of
        None \<Rightarrow> Inr 1
      | Some p \<Rightarrow>
          if p = 0 then Inr 1
          else (case BigInt (exponent_of pms p) of
                  Inl e \<Rightarrow> Inl e
                | Inr ex \<Rightarrow> BigInt_pow p ex))"

definition raw_factor :: "jsstring \<Rightarrow> int" where
  "raw_factor glyph = (case primeMap glyph of None \<Rightarrow> 1 | Some p \<Rightarrow> if p = 0 then 1 else p)"

text \<open>
  A mapping is encodable when five times the absolute value of its normalized activation
  is a finite number: the activation is neither NaN nor infinite, and the product does
  not overflow.
\<close>

definition encodable :: "PrimeMappedEmbedding \<Rightarrow> bool" where
  "encodable m =
     (case js_mul (Math_abs (normalizedActivation m)) (Fin 5) of Fin v \<Rightarrow> True | _ \<Rightarrow> False)"

text \<open>A string is well-formed UTF-16 when it has no unpaired surrogate.\<close>

definition is_surrogate :: "16 word \<Rightarrow> bool" where
  "is_surrogate c = (is_high_surrogate c \<or> is_low_surrogate c)"

fun well_formed :: "jsstring \<Rightarrow> bool" where
  "well_formed [] = True"
| "well_formed [c] = (\<not> is_surrogate c)"
| "well_formed (c # d # cs) =
     (if is_high_surrogate c then is_low_surrogate d \<and> well_formed cs
      else \<not> is_low_surrogate c \<and> well_formed (d # cs))"

text \<open>
  The population variance as the specification words it, in the arithmetic of the source:
  the mean is the sum divided by the count, the variance is the sum of the squared
  deviations divided by the count; sums run from left to right, starting at 0.
\<close>

definition sum_numbers :: "number list \<Rightarrow> number" where
  "sum_numbers xs = foldl js_add (Fin 0) xs"

definition mean_of :: "number list \<Rightarrow> number" where
  "mean_of xs = js_div (sum_numbers xs) (Fin (of_nat (length xs)))"

definition population_variance :: "number list \<Rightarrow> number" where
  "population_variance xs =
     js_div (sum_numbers (map (\<lambda>x. Math_pow_2 (js_sub x (mean_of xs))) xs))
       (Fin (of_nat (length xs)))"

text \<open>Sample data: a pipeline handle and a pooled embedding of ten components.\<close>

definition one_embedder :: embedder where
  "one_embedder = (\<lambda>t. Inr [Fin 1])"

definition sample_embedding :: LLMEmbeddings where
  "sample_embedding =
     \<lparr>model = Xenova_gpt2,
      pooledEmbedding = [Fin (1 / 4), Fin (- 1 / 2), Fin 0, Fin (1 / 2), Fin (1 / 4), Fin 0,
                         Fin (- 1 / 4), Fin (1 / 2), Fin 0, Fin (- 1 / 2)],
      hiddenSize = 10\<rparr>"

text \<open>
  More sample data: two prime mappings, a tape of three glyphs and a separator, the same
  glyphs in another order, a sampling result with a given prime-2 activation, and the
  binary64 number nearest to one tenth.
\<close>

definition sample_mappings :: "PrimeMappedEmbedding list" where
  "sample_mappings =
     [\<lparr>prime = 2, emoji = [0xD83C, 0xDFA9], activation = Fin 1,
       normalizedActivation = Fin (3 / 4), rank = 1\<rparr>,
      \<lparr>prime = 3, emoji = [0xD83C, 0xDFB2], activation = Fin (- 1 / 4),
       normalizedActivation = Fin (- 1 / 4), rank = 2\<rparr>]"

definition sample_tape :: jsstring where
  "sample_tape = [0xD83C, 0xDFA9, 0xD83C, 0xDFB2, 0x7C, 0xD83C, 0xDFA9]"

definition sample_tape_permuted :: jsstring where
  "sample_tape_permuted = [0xD83C, 0xDFA9, 0x7C, 0xD83C, 0xDFA9, 0xD83C, 0xDFB2]"

definition result_with :: "number \<Rightarrow> LLMSamplingResult" where
  "result_with x =
     \<lparr>tape = EMOJI_BLOCK_TAPE, primeMapping = [],
      universalAnchor = \<lparr>prime2Activation = x, consistencyScore = Fin 0, semanticDrift = Fin 0\<rparr>\<rparr>"

definition one_tenth :: rat where
  "one_tenth = 3602879701896397 / 2 ^ 55"

section \<open>Rounding\<close>

lemma rne_of_int: "rne (of_int k) = k"
  by (simp add: rne_def)

lemma rne_le: "x \<le> of_int K \<Longrightarrow> rne x \<le> K"
  unfolding rne_def Let_def
  by (auto simp: floor_le_iff)

lemma rne_ge:
  assumes "of_int K \<le> x"
  shows "K \<le> rne x"
proof -
  have "K \<le> \<lfloor>x\<rfloor>" using assms by (simp add: le_floor_iff)
  then show ?thesis unfolding rne_def Let_def by auto
qed

lemma round64_0: "round64 0 = Fin 0"
  by code_simp

lemma ilog2_lower:
  assumes "0 < q"
  shows "2 powi (ilog2 q) \<le> q"
proof -
  obtain a b where ab: "quotient_of q = (a, b)" by (cases "quotient_of q")
  have b: "0 < b" using ab quotient_of_denom_pos by blast
  have q: "q = of_int a / of_int b" using ab quotient_of_div by blast
  have a: "0 < a" using assms q b by (simp add: zero_less_divide_iff)
  let ?k = "bitlen a - bitlen b"
  show ?thesis
  proof (cases "2 powi ?k \<le> q")
    case True
    then show ?thesis using ab by (simp add: ilog2_def)
  next
    case False
    have la: "(2::int) ^ nat (bitlen a - 1) \<le> a" using bitlen_bounds[OF a] by simp
    have lb: "b < (2::int) ^ nat (bitlen b)" using bitlen_bounds[OF b] by simp
    have pa: "0 < bitlen a"
      using a bitlen_eq_zero_iff[of a] bitlen_nonneg[of a] by linarith
    have pb: "0 < bitlen b"
      using b bitlen_eq_zero_iff[of b] bitlen_nonneg[of b] by linarith
    have "(2::rat) powi (?k - 1) = 2 ^ nat (bitlen a - 1) / 2 ^ nat (bitlen b)"
    proof -
      have "(2::rat) powi (?k - 1) = 2 powi (bitlen a - 1) / 2 powi (bitlen b)"
        using power_int_diff[of "2::rat" "bitlen a - 1" "bitlen b"]
        by (simp add: algebra_simps)
      then show ?thesis using pa pb by (simp add: power_int_def)
    qed
    also have "\<dots> \<le> of_int a / of_int b"
    proof -
      have 1: "(2::rat) ^ nat (bitlen a - 1) \<le> of_int a"
        using la by (metis of_int_le_iff of_int_numeral of_int_power)
      have 2: "of_int b \<le> (2::rat) ^ nat (bitlen b)"
        using lb by (metis less_imp_le of_int_le_iff of_int_numeral of_int_power)
      show ?thesis
        by (rule frac_le) (use 1 2 a b in auto)
    qed
    finally show ?thesis using False ab q by (simp add: ilog2_def)
  qed
qed


lemma powi_shift:
  assumes "- int n \<le> t"
  shows "(2::rat) powi t = 2 ^ nat (t + int n) * 2 powi (- int n)"
proof -
  have "(2::rat) powi t = 2 powi ((t + int n) + (- int n))" by simp
  also have "\<dots> = 2 powi (t + int n) * 2 powi (- int n)"
    by (rule power_int_add) simp
  also have "2 powi (t + int n) = (2::rat) ^ nat (t + int n)"
    using assms by (simp add: power_int_def)
  finally show ?thesis .
qed

lemma powi_pos: "0 < (2::rat) powi t"
  by (simp add: zero_less_power_int)

lemma round64_grid:
  assumes "round64 q = Fin r"
  shows "\<exists>k::int. r = of_int k * 2 powi (- 1074)"
proof -
  define t where "t = max (ilog2 \<bar>q\<bar> - 52) (- 1074)"
  define m where "m = rne (\<bar>q\<bar> / 2 powi t)"
  have r: "r = sgn q * (of_int m * 2 powi t)"
    using assms unfolding round64_def Let_def t_def[symmetric] m_def[symmetric]
    by (auto split: if_splits)
  have "- int 1074 \<le> t" by (simp add: t_def)
  from powi_shift[OF this] have t: "2 powi t = 2 ^ nat (t + 1074) * (2::rat) powi (- 1074)"
    by simp
  have "sgn q = of_int (if 0 < q then 1 else if q = 0 then 0 else - 1)"
    by (simp add: sgn_if)
  then obtain s :: int where s: "sgn q = of_int s" ..
  have "r = of_int (s * m * 2 ^ nat (t + 1074)) * 2 powi (- 1074)"
    unfolding r s by (subst t) simp
  then show ?thesis ..
qed

lemma round64_above_zero:
  fixes k :: int
  assumes q: "q = of_int k * 2 powi (- 1074)"
  shows "above_zero (round64 q) \<longleftrightarrow> 0 < q"
proof -
  define t where "t = max (ilog2 \<bar>q\<bar> - 52) (- 1074)"
  define m where "m = rne (\<bar>q\<bar> / 2 powi t)"
  have r: "round64 q = (if 1024 < bitlen m + t then (if 0 < q then PosInf else NegInf)
                        else Fin (sgn q * (of_int m * 2 powi t)))"
    unfolding round64_def Let_def t_def[symmetric] m_def[symmetric] ..
  have m0: "0 \<le> m"
    unfolding m_def by (rule rne_ge) (simp add: less_imp_le[OF powi_pos])
  show ?thesis
  proof (cases "0 < q")
    case True
    have "1 \<le> \<bar>q\<bar> / 2 powi t"
    proof (cases "ilog2 \<bar>q\<bar> - 52 \<le> - 1074")
      case True
      then have t: "t = - 1074" by (simp add: t_def)
      have "0 < k" using \<open>0 < q\<close> q powi_pos[of "- 1074"] by (simp add: zero_less_mult_iff)
      then have "(1::rat) \<le> of_int k" by simp
      moreover have "\<bar>q\<bar> / 2 powi t = of_int k"
        using \<open>0 < q\<close> unfolding t q by simp
      ultimately show ?thesis by simp
    next
      case False
      then have t: "t = ilog2 \<bar>q\<bar> - 52" by (simp add: t_def)
      have "2 powi (ilog2 \<bar>q\<bar>) \<le> \<bar>q\<bar>" using ilog2_lower[of "\<bar>q\<bar>"] True by simp
      moreover have "(2::rat) powi t \<le> 2 powi (ilog2 \<bar>q\<bar>)"
        unfolding t by (rule power_int_increasing) auto
      ultimately have "2 powi t \<le> \<bar>q\<bar>" by linarith
      then show ?thesis using powi_pos[of t] by (simp add: le_divide_eq)
    qed
    then have "1 \<le> m" unfolding m_def using rne_ge[of 1] by simp
    then have "0 < of_int m * (2::rat) powi t" using powi_pos[of t] by simp
    then show ?thesis using True by (simp add: r above_zero_def)
  next
    case False
    have "0 \<le> of_int m * (2::rat) powi t" using m0 powi_pos[of t] by simp
    moreover have "sgn q \<le> 0" using False by (simp add: sgn_if)
    ultimately have "sgn q * (of_int m * 2 powi t) \<le> 0"
      by (simp add: mult_le_0_iff)
    then show ?thesis using False by (simp add: r above_zero_def)
  qed
qed

lemma round64_bounded:
  fixes K :: int
  assumes q: "\<bar>q\<bar> \<le> of_int K" and K: "K < 2 ^ 52"
  shows "\<exists>r. round64 q = Fin r \<and> \<bar>r\<bar> \<le> of_int K \<and> (0 \<le> q \<longrightarrow> 0 \<le> r)
             \<and> (\<exists>k::int. r = of_int k * 2 powi (- 1074))"
proof (cases "q = 0")
  case True
  have "(0::rat) = of_int 0 * 2 powi (- 1074)" by simp
  then show ?thesis using True round64_0 q by auto
next
  case False
  define t where "t = max (ilog2 \<bar>q\<bar> - 52) (- 1074)"
  define m where "m = rne (\<bar>q\<bar> / 2 powi t)"
  have r: "round64 q = (if 1024 < bitlen m + t then (if 0 < q then PosInf else NegInf)
                        else Fin (sgn q * (of_int m * 2 powi t)))"
    unfolding round64_def Let_def t_def[symmetric] m_def[symmetric] ..
  have m0: "0 \<le> m"
    unfolding m_def by (rule rne_ge) (simp add: less_imp_le[OF powi_pos])
  have K0: "0 \<le> K" using q by (smt (verit) abs_ge_zero of_int_0_le_iff order_trans)
  have pos: "0 < \<bar>q\<bar>" using False by simp
  have "2 powi (ilog2 \<bar>q\<bar>) \<le> \<bar>q\<bar>" by (rule ilog2_lower[OF pos])
  also have "\<bar>q\<bar> < 2 powi 52"
  proof -
    have "(of_int K :: rat) < of_int (2 ^ 52)" using K by (simp only: of_int_less_iff)
    then show ?thesis using q by simp
  qed
  finally have "(2::rat) powi (ilog2 \<bar>q\<bar>) < 2 powi 52" .
  then have "ilog2 \<bar>q\<bar> < 52"
    using power_int_increasing[of 52 "ilog2 \<bar>q\<bar>" "2::rat"] by (cases "ilog2 \<bar>q\<bar> < 52") auto
  then have tneg: "t < 0" by (simp add: t_def)
  define n where "n = nat (- t)"
  have pt: "(2::rat) powi t = 1 / 2 ^ n"
    using tneg by (simp add: power_int_def n_def power_inverse[symmetric] inverse_eq_divide
        power_one_over)
  have "\<bar>q\<bar> / 2 powi t = \<bar>q\<bar> * 2 ^ n" by (simp add: pt)
  also have "\<dots> \<le> of_int K * 2 ^ n" using q by simp
  also have "\<dots> = of_int (K * 2 ^ n)" by simp
  finally have mK: "m \<le> K * 2 ^ n" unfolding m_def by (rule rne_le)
  have "m < 2 ^ 52 * 2 ^ n" using mK K
    by (smt (verit) mult_strict_right_mono zero_less_numeral zero_less_power)
  then have "m < 2 ^ (52 + n)" by (simp add: power_add)
  then have "bitlen m \<le> int (52 + n)"
    using bitlen_le_iff_power[of m "int (52 + n)"] by (simp del: of_nat_add)
  then have nov: "\<not> 1024 < bitlen m + t" using tneg by (simp add: n_def)
  have val: "of_int m * (2::rat) powi t \<le> of_int K"
  proof -
    have "of_int m * (2::rat) powi t = of_int m / 2 ^ n" by (simp add: pt)
    also have "\<dots> \<le> of_int (K * 2 ^ n) / 2 ^ n"
      using mK by (simp add: divide_right_mono del: of_int_mult)
    also have "\<dots> = of_int K" by simp
    finally show ?thesis .
  qed
  have nn: "0 \<le> of_int m * (2::rat) powi t" using m0 powi_pos[of t] by simp
  have abs: "\<bar>sgn q * (of_int m * 2 powi t)\<bar> \<le> of_int K"
  proof -
    have "\<bar>sgn q * (of_int m * 2 powi t)\<bar> = \<bar>sgn q\<bar> * \<bar>of_int m * 2 powi t\<bar>"
      by (rule abs_mult)
    also have "\<dots> = of_int m * 2 powi t" using nn False by (simp add: sgn_if)
    finally show ?thesis using val by simp
  qed
  have sg: "0 \<le> q \<longrightarrow> 0 \<le> sgn q * (of_int m * 2 powi t)"
    using nn by (simp add: sgn_if)
  have "round64 q = Fin (sgn q * (of_int m * 2 powi t))" using r nov by simp
  then show ?thesis using abs sg round64_grid[of q] by auto
qed

lemma ilog2_upper:
  assumes "0 < q"
  shows "q < 2 powi (ilog2 q + 1)"
proof -
  obtain a b where ab: "quotient_of q = (a, b)" by (cases "quotient_of q")
  have b: "0 < b" using ab quotient_of_denom_pos by blast
  have q: "q = of_int a / of_int b" using ab quotient_of_div by blast
  have a: "0 < a" using assms q b by (simp add: zero_less_divide_iff)
  let ?k = "bitlen a - bitlen b"
  show ?thesis
  proof (cases "2 powi ?k \<le> q")
    case False
    then show ?thesis using ab by (simp add: ilog2_def)
  next
    case True
    have la: "a < (2::int) ^ nat (bitlen a)" using bitlen_bounds[OF a] by simp
    have lb: "(2::int) ^ nat (bitlen b - 1) \<le> b" using bitlen_bounds[OF b] by simp
    have pa: "0 < bitlen a"
      using a bitlen_eq_zero_iff[of a] bitlen_nonneg[of a] by linarith
    have pb: "0 < bitlen b"
      using b bitlen_eq_zero_iff[of b] bitlen_nonneg[of b] by linarith
    have 1: "of_int a < (2::rat) ^ nat (bitlen a)"
      using la by (metis of_int_less_iff of_int_numeral of_int_power)
    have 2: "(2::rat) ^ nat (bitlen b - 1) \<le> of_int b"
      using lb by (metis of_int_le_iff of_int_numeral of_int_power)
    have "of_int a / of_int b < (2::rat) ^ nat (bitlen a) / 2 ^ nat (bitlen b - 1)"
      by (rule frac_less) (use 1 2 a b in auto)
    also have "\<dots> = 2 powi (?k + 1)"
    proof -
      have "(2::rat) powi (?k + 1) = 2 powi (bitlen a) / 2 powi (bitlen b - 1)"
        using power_int_diff[of "2::rat" "bitlen a" "bitlen b - 1"]
        by (simp add: algebra_simps)
      then show ?thesis using pa pb by (simp add: power_int_def)
    qed
    finally show ?thesis using True ab q by (simp add: ilog2_def)
  qed
qed

lemma powi_less_cancel: "(2::rat) powi a < 2 powi b \<Longrightarrow> a < b"
  using power_int_increasing[of b a "2::rat"] by (cases "a < b") auto

lemma ilog2_eq:
  assumes "0 < q" "2 powi k \<le> q" "q < 2 powi (k + 1)"
  shows "ilog2 q = k"
proof -
  have "(2::rat) powi k < 2 powi (ilog2 q + 1)"
    using assms(2) ilog2_upper[OF assms(1)] by linarith
  then have 1: "k < ilog2 q + 1" by (rule powi_less_cancel)
  have "(2::rat) powi (ilog2 q) < 2 powi (k + 1)"
    using assms(3) ilog2_lower[OF assms(1)] by linarith
  then have "ilog2 q < k + 1" by (rule powi_less_cancel)
  then show ?thesis using 1 by simp
qed

lemma ilog2_scaled:
  assumes "1 \<le> m"
  shows "ilog2 (of_int m * 2 powi t) = t + bitlen m - 1"
proof (rule ilog2_eq)
  have m: "0 < m" using assms by simp
  show "0 < of_int m * (2::rat) powi t" using m powi_pos[of t] by simp
  have pm: "0 < bitlen m"
    using m bitlen_eq_zero_iff[of m] bitlen_nonneg[of m] by linarith
  have lo: "(2::rat) powi (bitlen m - 1) \<le> of_int m"
  proof -
    have "(2::int) ^ nat (bitlen m - 1) \<le> m" using bitlen_bounds[OF m] by simp
    then have "(2::rat) ^ nat (bitlen m - 1) \<le> of_int m"
      by (metis of_int_le_iff of_int_numeral of_int_power)
    then show ?thesis using pm by (simp add: power_int_def)
  qed
  have hi: "of_int m < (2::rat) powi (bitlen m)"
  proof -
    have "m < (2::int) ^ nat (bitlen m)" using bitlen_bounds[OF m] by simp
    then have "of_int m < (2::rat) ^ nat (bitlen m)"
      by (metis of_int_less_iff of_int_numeral of_int_power)
    then show ?thesis using pm by (simp add: power_int_def)
  qed
  have "(2::rat) powi (t + bitlen m - 1) = 2 powi (bitlen m - 1) * 2 powi t"
    using power_int_add[of "2::rat" "bitlen m - 1" t] by (simp add: algebra_simps)
  also have "\<dots> \<le> of_int m * 2 powi t"
    using lo powi_pos[of t] by (simp add: mult_right_mono)
  finally show "(2::rat) powi (t + bitlen m - 1) \<le> of_int m * 2 powi t" .
  have "of_int m * (2::rat) powi t < 2 powi (bitlen m) * 2 powi t"
    using hi powi_pos[of t] by (simp add: mult_strict_right_mono)
  also have "\<dots> = 2 powi (t + bitlen m - 1 + 1)"
    using power_int_add[of "2::rat" "bitlen m" t] by (simp add: algebra_simps)
  finally show "of_int m * (2::rat) powi t < 2 powi (t + bitlen m - 1 + 1)" .
qed


lemma bitlen_1: "bitlen 1 = 1"
  by (subst compute_bitlen) simp

lemma round64_of_scaled:
  assumes r: "\<bar>r\<bar> = of_int M * 2 powi u" and M: "1 \<le> M"
    and u: "u = max (ilog2 \<bar>r\<bar> - 52) (- 1074)"
    and nov: "\<not> 1024 < bitlen M + u"
  shows "round64 r = Fin r"
proof -
  have "\<bar>r\<bar> / 2 powi u = of_int M"
    using r powi_pos[of u] by simp
  then have m: "rne (\<bar>r\<bar> / 2 powi u) = M" by (simp add: rne_of_int)
  have "sgn r * (of_int M * 2 powi u) = sgn r * \<bar>r\<bar>" using r by simp
  also have "\<dots> = r" by (simp add: sgn_if)
  finally have "sgn r * (of_int M * 2 powi u) = r" .
  then show ?thesis
    unfolding round64_def Let_def u[symmetric] m using nov by simp
qed

text \<open>
  Rounding is idempotent: what \<open>round64\<close> returns is a binary64 number, and a binary64
  number is its own rounding. So every function into the binary64 numbers between -1 and
  1 is \<open>round64\<close> after some \<open>th\<close>, and the parameter of \<open>Math_tanh\<close> ranges over all of
  them.
\<close>

lemma round64_idem:
  assumes "round64 q = Fin r"
  shows "round64 r = Fin r"
proof -
  define t where "t = max (ilog2 \<bar>q\<bar> - 52) (- 1074)"
  define m where "m = rne (\<bar>q\<bar> / 2 powi t)"
  have rq: "round64 q = (if 1024 < bitlen m + t then (if 0 < q then PosInf else NegInf)
                        else Fin (sgn q * (of_int m * 2 powi t)))"
    unfolding round64_def Let_def t_def[symmetric] m_def[symmetric] ..
  then have nov: "\<not> 1024 < bitlen m + t" and r: "r = sgn q * (of_int m * 2 powi t)"
    using assms by (auto split: if_splits)
  have m0: "0 \<le> m"
    unfolding m_def by (rule rne_ge) (simp add: less_imp_le[OF powi_pos])
  show ?thesis
  proof (cases "m = 0 \<or> q = 0")
    case True
    then have "r = 0" using r by auto
    then show ?thesis by (simp add: round64_0)
  next
    case False
    then have m1: "1 \<le> m" and q0: "q \<noteq> 0" using m0 by auto
    have pos: "0 < \<bar>q\<bar>" using q0 by simp
    have absr: "\<bar>r\<bar> = of_int m * 2 powi t"
    proof -
      have "\<bar>r\<bar> = \<bar>sgn q\<bar> * \<bar>of_int m * 2 powi t\<bar>" unfolding r by (rule abs_mult)
      also have "\<dots> = of_int m * 2 powi t"
        using q0 m0 powi_pos[of t] by (simp add: sgn_if abs_mult)
      finally show ?thesis .
    qed
    have mb: "m \<le> 2 ^ 53"
    proof -
      have "\<bar>q\<bar> < 2 powi (ilog2 \<bar>q\<bar> + 1)" by (rule ilog2_upper[OF pos])
      also have "\<dots> = 2 powi (ilog2 \<bar>q\<bar> - 52) * 2 ^ 53"
        using power_int_add[of "2::rat" "ilog2 \<bar>q\<bar> - 52" 53] by (simp add: algebra_simps)
      also have "\<dots> \<le> 2 powi t * 2 ^ 53"
      proof -
        have "(2::rat) powi (ilog2 \<bar>q\<bar> - 52) \<le> 2 powi t"
          by (rule power_int_increasing) (simp_all add: t_def)
        then show ?thesis by (simp add: mult_right_mono)
      qed
      finally have "\<bar>q\<bar> / 2 powi t < 2 ^ 53"
        using powi_pos[of t] by (simp add: divide_less_eq mult.commute)
      then have "\<bar>q\<bar> / 2 powi t \<le> of_int (2 ^ 53)" by simp
      then show ?thesis unfolding m_def by (rule rne_le)
    qed
    have il: "ilog2 \<bar>r\<bar> = t + bitlen m - 1"
      unfolding absr by (rule ilog2_scaled[OF m1])
    have tl: "- 1074 \<le> t" by (simp add: t_def)
    define u where "u = max (ilog2 \<bar>r\<bar> - 52) (- 1074)"
    show ?thesis
    proof (cases "bitlen m \<le> 53")
      case True
      then have ut: "u \<le> t" using tl by (simp add: u_def il)
      define d where "d = nat (t - u)"
      have "(2::rat) powi t = 2 ^ d * 2 powi u"
        using powi_shift[of d "t - u"] power_int_add[of "2::rat" "t - u" u] ut
        by (simp add: d_def power_int_def)
      then have a: "\<bar>r\<bar> = of_int (m * 2 ^ d) * 2 powi u" unfolding absr by simp
      have b: "1 \<le> m * 2 ^ d"
      proof -
        have "1 * 1 \<le> m * 2 ^ d" using m1 by (intro mult_mono) simp_all
        then show ?thesis by simp
      qed
      have "bitlen (m * 2 ^ d) = bitlen m + int d" using m1 by (simp add: bitlen_pow2)
      then have c: "\<not> 1024 < bitlen (m * 2 ^ d) + u" using nov ut by (simp add: d_def)
      show ?thesis by (rule round64_of_scaled[OF a b u_def c])
    next
      case False
      then have "2 ^ 53 \<le> m"
        using bitlen_le_iff_power[of m 53] by simp
      then have m: "m = 2 ^ 53" using mb by simp
      have bl: "bitlen m = 54" unfolding m using bitlen_pow2[of 1 53] by (simp add: bitlen_1)
      have ut: "u = t + 1" using tl by (simp add: u_def il bl)
      have "(2::rat) powi (t + 1) = 2 powi t * 2"
        using power_int_add[of "2::rat" t 1] by simp
      then have a: "\<bar>r\<bar> = of_int (2 ^ 52) * 2 powi u" unfolding absr m ut by simp
      have "bitlen (2 ^ 52) = 53" using bitlen_pow2[of 1 52] by (simp add: bitlen_1)
      then have c: "\<not> 1024 < bitlen (2 ^ 52) + u" using nov bl ut by simp
      show ?thesis by (rule round64_of_scaled[OF a _ u_def c]) simp
    qed
  qed
qed

lemma is_double_round64: "is_double (round64 q)"
  using round64_idem[of q] by (cases "round64 q") (simp_all add: is_double_def)


text \<open>
  Rounding goes to a nearest point of the grid: the error is at most half the spacing.
\<close>

lemma rne_nearest: "\<bar>of_int (rne x) - x\<bar> \<le> 1 / 2"
proof -
  have "of_int \<lfloor>x\<rfloor> \<le> x" "x < of_int \<lfloor>x\<rfloor> + 1" by linarith+
  then show ?thesis unfolding rne_def Let_def by (auto simp: abs_le_iff) 
qed

lemma round64_nearest:
  assumes "round64 q = Fin r"
  shows "\<bar>r - q\<bar> \<le> 2 powi (max (ilog2 \<bar>q\<bar> - 52) (- 1074)) / 2"
proof -
  define t where "t = max (ilog2 \<bar>q\<bar> - 52) (- 1074)"
  define m where "m = rne (\<bar>q\<bar> / 2 powi t)"
  have r: "r = sgn q * (of_int m * 2 powi t)"
    using assms unfolding round64_def Let_def t_def[symmetric] m_def[symmetric]
    by (auto split: if_splits)
  have "\<bar>of_int m - \<bar>q\<bar> / 2 powi t\<bar> \<le> 1 / 2" unfolding m_def by (rule rne_nearest)
  then have "\<bar>of_int m - \<bar>q\<bar> / 2 powi t\<bar> * 2 powi t \<le> 1 / 2 * 2 powi t"
    using powi_pos[of t] by (simp add: mult_right_mono del: times_divide_eq_left)
  moreover have "\<bar>of_int m - \<bar>q\<bar> / 2 powi t\<bar> * 2 powi t = \<bar>of_int m * 2 powi t - \<bar>q\<bar>\<bar>"
  proof -
    have "\<bar>of_int m - \<bar>q\<bar> / 2 powi t\<bar> * 2 powi t = \<bar>(of_int m - \<bar>q\<bar> / 2 powi t) * 2 powi t\<bar>"
      using powi_pos[of t] by (simp add: abs_mult)
    also have "(of_int m - \<bar>q\<bar> / 2 powi t) * 2 powi t = of_int m * 2 powi t - \<bar>q\<bar>"
      using powi_pos[of t] by (simp add: algebra_simps)
    finally show ?thesis .
  qed
  ultimately have e: "\<bar>of_int m * 2 powi t - \<bar>q\<bar>\<bar> \<le> 2 powi t / 2" by simp
  have "\<bar>r - q\<bar> = \<bar>of_int m * 2 powi t - \<bar>q\<bar>\<bar>"
  proof (cases "0 \<le> q")
    case True
    then show ?thesis using r by (cases "q = 0") (simp_all add: sgn_if m_def rne_def)
  next
    case False
    then have "r - q = - (of_int m * 2 powi t - \<bar>q\<bar>)" using r by (simp add: sgn_if)
    then show ?thesis by (simp only: abs_minus)
  qed
  then show ?thesis using e by (simp add: t_def)
qed

text \<open>
  Known values: the numbers nearest to 0.1, 0.2 and 0.3; \<open>0.1 + 0.2\<close>, which is not the
  number nearest to 0.3; ties going to the even significand; division by zero.
\<close>

lemma binary64_examples:
  "round64 (1 / 10) = Fin (3602879701896397 / 2 ^ 55)"
  "round64 (2 / 10) = Fin (3602879701896397 / 2 ^ 54)"
  "round64 (3 / 10) = Fin (5404319552844595 / 2 ^ 54)"
  "js_add (Fin (3602879701896397 / 2 ^ 55)) (Fin (3602879701896397 / 2 ^ 54)) =
     Fin (5404319552844596 / 2 ^ 54)"
  "round64 (2 ^ 53 + 1) = Fin (2 ^ 53)"
  "round64 (2 ^ 53 + 3) = Fin (2 ^ 53 + 4)"
  "js_div (Fin 1) (Fin 0) = PosInf"
  "js_div (Fin 0) (Fin 0) = NaN"
  by code_simp+

section \<open>Code points\<close>

lemma concat_Array_from: "concat (Array_from t) = t"
  by (induction t rule: Array_from.induct) auto

lemma Array_from_shape:
  "g \<in> set (Array_from t) \<Longrightarrow>
     length g = 1 \<or> (length g = 2 \<and> is_high_surrogate (g ! 0) \<and> is_low_surrogate (g ! 1))"
  by (induction t rule: Array_from.induct) (auto split: if_splits)

lemma length_Array_from:
  "length t = length (Array_from t) + length (filter (\<lambda>g. length g = 2) (Array_from t))"
  by (induction t rule: Array_from.induct) auto

section \<open>The tokenizer\<close>

lemma sint_word_of_int_32: "sint (word_of_int x :: 32 word) = wrap_int32 x"
  by (simp add: wrap_int32_def int_word_sint)

lemma hash_step_wrap: "hash_step h c = wrap_int32 (h * 2 ^ 5 - h + uint c)"
proof -
  have "(word_of_int (sint (push_bit 5 (word_of_int h :: 32 word)) - h + uint c) :: 32 word)
        = word_of_int (h * 2 ^ 5 - h + uint c)"
    by (simp add: push_bit_eq_mult)
  moreover have "(word_of_int 0xffffffff :: 32 word) = - 1" by simp
  ultimately show ?thesis
    unfolding hash_step_def bit_and_def shift_left_5_def
    by (simp only: sint_word_of_int_32[symmetric] word_bw_same and.right_neutral word_and_max)
qed

lemma token_id_spec: "token_id g = spec_token_id g"
  by (simp add: token_id_def spec_token_id_def spec_hash_def hash_step_wrap[abs_def])

text \<open>
  C5. For a model whose tokenizer is in the cache, \<open>tokenizeTape\<close> returns, and its token
  ids are the reference token ids of the code points of the tape in iteration order, the
  separator included: the glyph strings, concatenated, are the tape, and each is one code
  unit or a surrogate pair. The sequence length is the number of code points. The ids are
  the same for every sampler and every initialized model, and the default tape is used
  when none is given.
\<close>

theorem tokenizeTape_tokens:
  assumes "tokenizers s m = Some h"
  shows "\<exists>r. tokenizeTape s m (Some t) = Inr r
           \<and> tokens r = map spec_token_id (Array_from t)
           \<and> tokenStrings r = Array_from t
           \<and> concat (tokenStrings r) = t
           \<and> (\<forall>g \<in> set (tokenStrings r). length g = 1 \<or>
                 (length g = 2 \<and> is_high_surrogate (g ! 0) \<and> is_low_surrogate (g ! 1)))
           \<and> sequenceLength (metadata r) = length (Array_from t)
           \<and> tokenizeTape s m None = tokenizeTape s m (Some EMOJI_BLOCK_TAPE)
           \<and> (\<forall>s' m' h'. tokenizers s' m' = Some h' \<longrightarrow>
                 (\<exists>r'. tokenizeTape s' m' (Some t) = Inr r' \<and> tokens r' = tokens r))"
  using assms Array_from_shape[of _ t]
  by (auto simp: tokenizeTape_def simulateTokenization_def Let_def token_id_spec
      concat_Array_from)

theorem tokenizeTape_tokens_witness:
  "tokenizers (run_events new_LLMEmojiSampler [(Xenova_gpt2, Inr one_embedder)]) Xenova_gpt2
     = Some one_embedder
   \<and> (\<exists>r. tokenizeTape (run_events new_LLMEmojiSampler [(Xenova_gpt2, Inr one_embedder)])
            Xenova_gpt2 (Some [0xD83C, 0xDFA9, 0x7C]) = Inr r
          \<and> tokens r = [23293, 124] \<and> sequenceLength (metadata r) = 2)"
proof -
  have h: "tokenizers (run_events new_LLMEmojiSampler [(Xenova_gpt2, Inr one_embedder)])
             Xenova_gpt2 = Some one_embedder"
    by (simp add: initializeModel_def new_LLMEmojiSampler_def)
  have a: "Array_from [0xD83C, 0xDFA9, 0x7C] = [[0xD83C, 0xDFA9], [0x7C]]"
    by (simp add: is_high_surrogate_def is_low_surrogate_def)
  have t: "map spec_token_id [[0xD83C, 0xDFA9], [0x7C]] = [23293, 124]"
    by (simp add: spec_token_id_def spec_hash_def wrap_int32_def)
  from tokenizeTape_tokens[OF h, of "[0xD83C, 0xDFA9, 0x7C]"] h show ?thesis
    unfolding a t by auto
qed

section \<open>The model cache\<close>

lemma run_events_tokenizers:
  "dom (tokenizers (run_events s evs)) = dom (tokenizers s) \<union> {m. init_completed m evs}"
proof (induction evs arbitrary: s)
  case Nil
  then show ?case by (simp add: init_completed_def)
next
  case (Cons ev evs)
  obtain m outcome where ev: "ev = (m, outcome)" by (cases ev)
  show ?case
  proof (cases outcome)
    case (Inl e)
    then show ?thesis using Cons[of s] ev
      by (auto simp: initializeModel_def init_completed_def)
  next
    case (Inr h)
    then show ?thesis
      using Cons[of "s\<lparr>embedders := (embedders s)(m \<mapsto> h),
                       tokenizers := (tokenizers s)(m \<mapsto> h)\<rparr>"] ev
      by (auto simp: initializeModel_def init_completed_def split: if_splits)
  qed
qed

lemma run_events_embedders:
  "dom (embedders (run_events s evs)) = dom (embedders s) \<union> {m. init_completed m evs}"
proof (induction evs arbitrary: s)
  case Nil
  then show ?case by (simp add: init_completed_def)
next
  case (Cons ev evs)
  obtain m outcome where ev: "ev = (m, outcome)" by (cases ev)
  show ?case
  proof (cases outcome)
    case (Inl e)
    then show ?thesis using Cons[of s] ev
      by (auto simp: initializeModel_def init_completed_def)
  next
    case (Inr h)
    then show ?thesis
      using Cons[of "s\<lparr>embedders := (embedders s)(m \<mapsto> h),
                       tokenizers := (tokenizers s)(m \<mapsto> h)\<rparr>"] ev
      by (auto simp: initializeModel_def init_completed_def split: if_splits)
  qed
qed

lemma embedTape_uninitialized:
  "(\<exists>e. embedTape s m t = Inl e \<and> ModelNotInitialized e) \<longleftrightarrow> m \<notin> dom (embedders s)"
  by (auto simp: embedTape_def Let_def split: option.splits sum.splits)

text \<open>
  C6. On a sampler reached from a fresh one by any history of \<open>initializeModel\<close> calls,
  \<open>tokenizeTape\<close> and \<open>embedTape\<close> fail with a "not initialized" error for a model if
  and only if no initialization of that model has completed. Once one has completed,
  \<open>tokenizeTape\<close> returns, and \<open>embedTape\<close> returns or passes on the error of the
  provider, which is not a "not initialized" error.
\<close>

theorem not_initialized_iff:
  assumes "s = run_events new_LLMEmojiSampler evs"
  shows "((\<exists>e. tokenizeTape s m t = Inl e \<and> ModelNotInitialized e) \<longleftrightarrow> \<not> init_completed m evs)
       \<and> ((\<exists>e. embedTape s m t = Inl e \<and> ModelNotInitialized e) \<longleftrightarrow> \<not> init_completed m evs)
       \<and> (init_completed m evs \<longrightarrow> (\<exists>r. tokenizeTape s m t = Inr r))
       \<and> (init_completed m evs \<longrightarrow>
            (\<exists>r. embedTape s m t = Inr r) \<or> (\<exists>x. embedTape s m t = Inl (ProviderError x)))"
proof -
  have dt: "m \<in> dom (tokenizers s) \<longleftrightarrow> init_completed m evs"
    using run_events_tokenizers[of new_LLMEmojiSampler evs] assms
    by (auto simp: new_LLMEmojiSampler_def)
  have de: "m \<in> dom (embedders s) \<longleftrightarrow> init_completed m evs"
    using run_events_embedders[of new_LLMEmojiSampler evs] assms
    by (auto simp: new_LLMEmojiSampler_def)
  have 1: "(\<exists>e. tokenizeTape s m t = Inl e \<and> ModelNotInitialized e) \<longleftrightarrow> \<not> init_completed m evs"
    using dt by (auto simp: tokenizeTape_def Let_def split: option.splits)
  have 2: "(\<exists>e. embedTape s m t = Inl e \<and> ModelNotInitialized e) \<longleftrightarrow> \<not> init_completed m evs"
    using de embedTape_uninitialized[of s m t] by simp
  have 3: "init_completed m evs \<longrightarrow> (\<exists>r. tokenizeTape s m t = Inr r)"
    using dt by (auto simp: tokenizeTape_def Let_def split: option.splits)
  have 4: "init_completed m evs \<longrightarrow>
            (\<exists>r. embedTape s m t = Inr r) \<or> (\<exists>x. embedTape s m t = Inl (ProviderError x))"
    using de by (auto simp: embedTape_def Let_def split: option.splits sum.splits)
  from 1 2 3 4 show ?thesis by blast
qed

theorem not_initialized_iff_witness:
  "init_completed Xenova_gpt2 [(Xenova_bert_base_uncased, Inl 3), (Xenova_gpt2, Inr one_embedder)]
   \<and> \<not> init_completed Xenova_bert_base_uncased
         [(Xenova_bert_base_uncased, Inl 3), (Xenova_gpt2, Inr one_embedder)]
   \<and> (\<exists>r. tokenizeTape
            (run_events new_LLMEmojiSampler
               [(Xenova_bert_base_uncased, Inl 3), (Xenova_gpt2, Inr one_embedder)])
            Xenova_gpt2 None = Inr r)
   \<and> (\<exists>e. embedTape
            (run_events new_LLMEmojiSampler
               [(Xenova_bert_base_uncased, Inl 3), (Xenova_gpt2, Inr one_embedder)])
            Xenova_bert_base_uncased None = Inl e \<and> ModelNotInitialized e)"
proof -
  let ?evs = "[(Xenova_bert_base_uncased, Inl 3), (Xenova_gpt2, Inr one_embedder)]"
  have c: "init_completed Xenova_gpt2 ?evs" by (simp add: init_completed_def)
  have n: "\<not> init_completed Xenova_bert_base_uncased ?evs" by (simp add: init_completed_def)
  from not_initialized_iff[OF refl, where m = Xenova_gpt2 and t = None and evs = ?evs]
       not_initialized_iff[OF refl, where m = Xenova_bert_base_uncased and t = None
         and evs = ?evs] c n
  show ?thesis by blast
qed

section \<open>The hierarchy of an encoding\<close>

text \<open>
  The size of the hierarchy is not the number of code points of the segment text: the
  default tape has 21 code points (19 glyphs and 2 separators), and its encoding has
  size 40 and 5 cycles, where 21 code points would give 3.
\<close>

theorem hierarchy_size_counterexample:
  "\<not> isl (encodeAsGodel EMOJI_BLOCK_TAPE [])
   \<and> size_h (hierarchy (projr (encodeAsGodel EMOJI_BLOCK_TAPE []))) = 40
   \<and> cycles (hierarchy (projr (encodeAsGodel EMOJI_BLOCK_TAPE []))) = 5
   \<and> length (Array_from EMOJI_BLOCK_TAPE) = 21"
  by code_simp

text \<open>
  C4, amended. The encoding that \<open>encodeAsGodel\<close> returns carries as its size the length
  of the segment text in UTF-16 code units, which is the number of its code points plus
  the number of its surrogate pairs (separators count, nothing is stripped); its program
  is the segment text verbatim; its cycles are that size divided by 7, rounded down.
\<close>

theorem hierarchy_fields:
  assumes "encodeAsGodel seg pms = Inr g"
  shows "size_h (hierarchy g) = length seg
       \<and> length seg = length (Array_from seg)
                        + length (filter (\<lambda>c. length c = 2) (Array_from seg))
       \<and> program (hierarchy g) = seg
       \<and> cycles (hierarchy g) = size_h (hierarchy g) div 7"
  using assms length_Array_from[of seg]
  by (auto simp: encodeAsGodel_def split: sum.splits)

theorem hierarchy_fields_witness:
  "encodeAsGodel [0xD83C, 0xDFA9, 0x7C] [] =
     Inr \<lparr>tapeSegment = [0xD83C, 0xDFA9, 0x7C], godelNumber = 2, primeMappings = [],
          hierarchy = \<lparr>size_h = 3, program = [0xD83C, 0xDFA9, 0x7C], cycles = 0\<rparr>\<rparr>
   \<and> length (Array_from [0xD83C, 0xDFA9, 0x7C]) = 2"
proof -
  have e: "encodeAsGodel [0xD83C, 0xDFA9, 0x7C] [] =
     Inr \<lparr>tapeSegment = [0xD83C, 0xDFA9, 0x7C], godelNumber = 2, primeMappings = [],
          hierarchy = \<lparr>size_h = 3, program = [0xD83C, 0xDFA9, 0x7C], cycles = 0\<rparr>\<rparr>"
    by code_simp
  have a: "length (Array_from [0xD83C, 0xDFA9, 0x7C]) = 2" by code_simp
  from hierarchy_fields[OF e] e a show ?thesis by simp
qed

section \<open>The ranking\<close>

lemma on_grid_abs: "on_grid a \<Longrightarrow> on_grid \<bar>a\<bar>"
proof -
  assume "on_grid a"
  then obtain k :: int where k: "a = of_int k * 2 powi (- 1074)" unfolding on_grid_def ..
  have "\<bar>a\<bar> = of_int \<bar>k\<bar> * 2 powi (- 1074)"
    unfolding k using powi_pos[of "- 1074"] by (simp add: abs_mult del: power_int_numeral power_int_minus)
  then show ?thesis unfolding on_grid_def ..
qed

lemma on_grid_diff: "on_grid a \<Longrightarrow> on_grid b \<Longrightarrow> on_grid (a - b)"
proof -
  assume "on_grid a" "on_grid b"
  then obtain k l :: int where k: "a = of_int k * 2 powi (- 1074)" and l: "b = of_int l * 2 powi (- 1074)"
    unfolding on_grid_def by blast
  have "a - b = of_int (k - l) * 2 powi (- 1074)"
    unfolding k l by (simp add: algebra_simps del: power_int_numeral power_int_minus)
  then show ?thesis unfolding on_grid_def ..
qed

lemma on_grid_int: "on_grid (of_int n)"
proof -
  have "(of_int n :: rat) = of_int (n * 2 ^ 1074) * 2 powi (- 1074)"
    using powi_shift[of 1074 0] by simp
  then show ?thesis unfolding on_grid_def ..
qed

lemma Math_tanh_normal:
  assumes "x \<noteq> NaN"
  shows "\<exists>a. Math_tanh th x = Fin a \<and> \<bar>a\<bar> \<le> 1 \<and> on_grid a"
proof (cases x)
  case NaN
  then show ?thesis using assms by simp
next
  case PosInf
  then show ?thesis using on_grid_int[of 1] by simp
next
  case NegInf
  then show ?thesis using on_grid_int[of "- 1"] by simp
next
  case (Fin q)
  show ?thesis
  proof (cases "q = 0")
    case True
    then show ?thesis using Fin on_grid_int[of 0] by simp
  next
    case False
    have "\<bar>max (- 1) (min 1 (th q))\<bar> \<le> of_int 1" by (simp add: abs_le_iff)
    from round64_bounded[OF this] show ?thesis using Fin False
      by (auto simp: on_grid_def)
  qed
qed

lemma or_zero_not_NaN: "or_zero x \<noteq> NaN"
  by (simp add: or_zero_def)

lemma element_or_zero_not_NaN: "element_or_zero xs i \<noteq> NaN"
  by (simp add: element_or_zero_def or_zero_not_NaN)

lemma initial_mappings_normal:
  "m \<in> set (initial_mappings th rd) \<Longrightarrow> well_normalized m"
  unfolding initial_mappings_def well_normalized_def
  using Math_tanh_normal[OF element_or_zero_not_NaN]
  by (auto simp: Let_def)

lemma compare_activation_above_zero:
  assumes "well_normalized x" "well_normalized y"
  shows "comes_after compare_activation x y \<longleftrightarrow> \<not> (- abs_activation x \<le> - abs_activation y)"
proof -
  obtain a where a: "normalizedActivation x = Fin a" "on_grid a"
    using assms(1) unfolding well_normalized_def by blast
  obtain b where b: "normalizedActivation y = Fin b" "on_grid b"
    using assms(2) unfolding well_normalized_def by blast
  have "on_grid (\<bar>b\<bar> - \<bar>a\<bar>)" using a b by (simp add: on_grid_abs on_grid_diff)
  then obtain k :: int where "\<bar>b\<bar> - \<bar>a\<bar> = of_int k * 2 powi (- 1074)"
    unfolding on_grid_def ..
  from round64_above_zero[OF this] show ?thesis
    by (simp add: comes_after_def compare_activation_def a b abs_activation_def not_le)
qed

lemma insert_sorted_insort_key:
  assumes "well_normalized x" "\<forall>y \<in> set ys. well_normalized y"
  shows "insert_sorted compare_activation x ys = insort_key (\<lambda>m. - abs_activation m) x ys"
  using assms
  by (induction ys) (auto simp: compare_activation_above_zero)

lemma set_insert_sorted: "set (insert_sorted cmp x ys) = insert x (set ys)"
  by (induction ys) auto

lemma set_foldr_insert_sorted: "set (foldr (insert_sorted cmp) xs []) = set xs"
  by (induction xs) (auto simp: set_insert_sorted)

lemma Array_sort_sort_key:
  assumes "\<forall>y \<in> set xs. well_normalized y"
  shows "Array_sort compare_activation xs = sort_key (\<lambda>m. - abs_activation m) xs"
  using assms unfolding Array_sort_def sort_key_def
proof (induction xs)
  case Nil
  then show ?case by simp
next
  case (Cons x xs)
  have "\<forall>y \<in> set (foldr (insort_key (\<lambda>m. - abs_activation m)) xs []). well_normalized y"
    using Cons.prems by (simp flip: sort_key_def)
  then show ?case using Cons by (simp add: insert_sorted_insort_key)
qed


lemma length_assign_ranks: "length (assign_ranks xs) = length xs"
  by (simp add: assign_ranks_def)

lemma nth_assign_ranks:
  "i < length xs \<Longrightarrow> assign_ranks xs ! i = (xs ! i)\<lparr>rank := i + 1\<rparr>"
  by (simp add: assign_ranks_def)

lemma map_rank_assign_ranks: "map rank (assign_ranks xs) = map Suc [0..<length xs]"
  by (rule nth_equalityI) (simp_all add: length_assign_ranks nth_assign_ranks)

lemma map_assign_ranks:
  assumes "\<And>m r. g (m\<lparr>rank := r\<rparr>) = g m"
  shows "map g (assign_ranks xs) = map g xs"
  by (rule nth_equalityI) (simp_all add: length_assign_ranks nth_assign_ranks assms)

lemma sorted_wrt_assign_ranks:
  assumes "\<And>m r m' r'. P (m\<lparr>rank := r\<rparr>) (m'\<lparr>rank := r'\<rparr>) = P m m'"
  shows "sorted_wrt P (assign_ranks xs) = sorted_wrt P xs"
  by (simp add: sorted_wrt_iff_nth_less length_assign_ranks nth_assign_ranks assms)

lemma sorted_wrt_ties:
  assumes "\<And>k. sorted_wrt R (filter (\<lambda>y. f y = k) ys)"
  shows "sorted_wrt (\<lambda>a b. f a = f b \<longrightarrow> R a b) ys"
  using assms
proof (induction ys)
  case Nil
  then show ?case by simp
next
  case (Cons y ys)
  have tl: "sorted_wrt R (filter (\<lambda>z. f z = k) ys)" for k
    using Cons.prems[of k] by (cases "f y = k") auto
  have hd: "\<forall>b \<in> set ys. f y = f b \<longrightarrow> R y b"
    using Cons.prems[of "f y"] by auto
  show ?case using Cons.IH[OF tl] hd by simp
qed

lemma abs_activation_rank [simp]: "abs_activation (m\<lparr>rank := r\<rparr>) = abs_activation m"
  by (simp add: abs_activation_def)

lemma map_prime_initial_mappings:
  "map (\<lambda>m. (emoji m, prime m)) (initial_mappings th rd) =
   map (\<lambda>p. (EmojiPrimeMapping.emoji p, EmojiPrimeMapping.prime p)) INTRINSIC_PRIMES"
  unfolding initial_mappings_def
  by (rule nth_equalityI) (simp_all add: Let_def)

lemma primes_initial_mappings:
  "map prime (initial_mappings th rd) = [2, 3, 5, 7, 11, 13, 17, 19, 23, 29]"
proof -
  have "map prime (initial_mappings th rd) = map snd (map (\<lambda>m. (emoji m, prime m)) (initial_mappings th rd))"
    by simp
  also have "\<dots> = [2, 3, 5, 7, 11, 13, 17, 19, 23, 29]"
    unfolding map_prime_initial_mappings by (simp add: INTRINSIC_PRIMES_def)
  finally show ?thesis .
qed

text \<open>
  C1. For every embedding result and every approximation of the hyperbolic tangent,
  \<open>mapEmbeddingsToPrimes\<close> returns 10 entries; their glyphs and primes are those of the
  registry, each once; their ranks are 1 to 10 in the order of the result; every
  normalized activation is a finite number of absolute value at most 1; the entries are
  in descending order of the absolute normalized activation, and entries that tie stand
  in registry order (the registry lists its primes in increasing order); so the entry of
  rank 1 has the largest absolute normalized activation of the ten.
\<close>

theorem mapEmbeddingsToPrimes_ranked:
  fixes th emb
  defines "out \<equiv> mapEmbeddingsToPrimes th emb"
  shows "length out = 10
       \<and> map rank out = [1, 2, 3, 4, 5, 6, 7, 8, 9, 10]
       \<and> mset (map (\<lambda>m. (emoji m, prime m)) out) =
           mset (map (\<lambda>p. (EmojiPrimeMapping.emoji p, EmojiPrimeMapping.prime p)) INTRINSIC_PRIMES)
       \<and> (\<forall>m \<in> set out. \<exists>a. normalizedActivation m = Fin a \<and> \<bar>a\<bar> \<le> 1)
       \<and> sorted_wrt (\<lambda>a b. abs_activation b \<le> abs_activation a) out
       \<and> sorted_wrt (\<lambda>a b. abs_activation a = abs_activation b \<longrightarrow> prime a < prime b) out
       \<and> sorted_wrt (<) (map EmojiPrimeMapping.prime INTRINSIC_PRIMES)
       \<and> (\<forall>m \<in> set out. rank m = 1 \<longrightarrow> (\<forall>m' \<in> set out. abs_activation m' \<le> abs_activation m))"
proof -
  define rd where "rd = reduceToPrimeDimensions (pooledEmbedding emb) (length INTRINSIC_PRIMES)"
  define xs where "xs = initial_mappings th rd"
  define f where "f = (\<lambda>m. - abs_activation m)"
  define ys where "ys = sort_key f xs"
  have wn: "\<forall>m \<in> set xs. well_normalized m"
    unfolding xs_def using initial_mappings_normal by blast
  have out: "out = assign_ranks ys"
    unfolding out_def mapEmbeddingsToPrimes_def Let_def ys_def f_def
    using Array_sort_sort_key[OF wn] by (simp add: xs_def rd_def)
  have lx: "length xs = 10"
    using arg_cong[OF primes_initial_mappings[of th rd], of length] by (simp add: xs_def)
  have ly: "length ys = 10" by (simp add: ys_def lx)
  have 1: "length out = 10" by (simp add: out length_assign_ranks ly)
  have 2: "map rank out = [1, 2, 3, 4, 5, 6, 7, 8, 9, 10]"
    unfolding out map_rank_assign_ranks ly by (simp add: upt_rec)
  have "mset (map (\<lambda>m. (emoji m, prime m)) out) = mset (map (\<lambda>m. (emoji m, prime m)) ys)"
    unfolding out by (subst map_assign_ranks) simp_all
  also have "\<dots> = mset (map (\<lambda>m. (emoji m, prime m)) xs)"
    by (simp add: ys_def)
  finally have 3: "mset (map (\<lambda>m. (emoji m, prime m)) out) =
           mset (map (\<lambda>p. (EmojiPrimeMapping.emoji p, EmojiPrimeMapping.prime p)) INTRINSIC_PRIMES)"
    by (simp add: xs_def map_prime_initial_mappings)
  have "map normalizedActivation out = map normalizedActivation ys"
    unfolding out by (subst map_assign_ranks) simp_all
  then have "set (map normalizedActivation out) = set (map normalizedActivation ys)"
    by (rule arg_cong)
  then have na: "normalizedActivation ` set out = normalizedActivation ` set xs"
    unfolding set_map by (simp add: ys_def)
  have 4: "\<forall>m \<in> set out. \<exists>a. normalizedActivation m = Fin a \<and> \<bar>a\<bar> \<le> 1"
  proof
    fix m assume "m \<in> set out"
    then have "normalizedActivation m \<in> normalizedActivation ` set xs"
      using na by blast
    then obtain x where "x \<in> set xs" "normalizedActivation m = normalizedActivation x"
      by blast
    then show "\<exists>a. normalizedActivation m = Fin a \<and> \<bar>a\<bar> \<le> 1"
      using wn unfolding well_normalized_def by auto
  qed
  have "sorted (map f ys)" unfolding ys_def by (rule sorted_sort_key)
  then have "sorted_wrt (\<lambda>a b. abs_activation b \<le> abs_activation a) ys"
    by (simp add: sorted_map f_def)
  then have 5: "sorted_wrt (\<lambda>a b. abs_activation b \<le> abs_activation a) out"
    unfolding out by (subst sorted_wrt_assign_ranks) simp_all
  have "sorted_wrt (<) (map prime xs)"
    unfolding xs_def primes_initial_mappings by simp
  then have px: "sorted_wrt (\<lambda>a b. prime a < prime b) xs" by (simp add: sorted_wrt_map)
  have "sorted_wrt (\<lambda>a b. prime a < prime b) (filter (\<lambda>y. f y = k) ys)" for k
    unfolding ys_def sort_key_stable by (rule sorted_wrt_filter[OF px])
  then have "sorted_wrt (\<lambda>a b. f a = f b \<longrightarrow> prime a < prime b) ys"
    by (rule sorted_wrt_ties)
  then have "sorted_wrt (\<lambda>a b. abs_activation a = abs_activation b \<longrightarrow> prime a < prime b) ys"
    by (simp add: f_def)
  then have 6: "sorted_wrt (\<lambda>a b. abs_activation a = abs_activation b \<longrightarrow> prime a < prime b) out"
    unfolding out by (subst sorted_wrt_assign_ranks) simp_all
  have 7: "\<forall>m \<in> set out. rank m = 1 \<longrightarrow> (\<forall>m' \<in> set out. abs_activation m' \<le> abs_activation m)"
  proof (intro ballI impI)
    fix m m' assume m: "m \<in> set out" "rank m = 1" and m': "m' \<in> set out"
    obtain i where i: "i < length out" "out ! i = m" using m(1) by (auto simp: in_set_conv_nth)
    obtain j where j: "j < length out" "out ! j = m'" using m' by (auto simp: in_set_conv_nth)
    have "rank (out ! i) = i + 1"
      using i(1) by (simp add: out length_assign_ranks nth_assign_ranks)
    then have i0: "i = 0" using m(2) i(2) by simp
    show "abs_activation m' \<le> abs_activation m"
    proof (cases "j = 0")
      case True
      then show ?thesis using i j i0 by simp
    next
      case False
      then have "0 < j" by simp
      from 5[unfolded sorted_wrt_iff_nth_less, rule_format, OF this j(1)]
      show ?thesis using i j i0 by simp
    qed
  qed
  have 8: "sorted_wrt (<) (map EmojiPrimeMapping.prime INTRINSIC_PRIMES)"
    by (simp add: INTRINSIC_PRIMES_def)
  from 1 2 3 4 5 6 7 8 show ?thesis by blast
qed



lemma round64_samples:
  "round64 (1 / 4) = Fin (1 / 4)" "round64 (- (1 / 4)) = Fin (- (1 / 4))"
  "round64 (1 / 2) = Fin (1 / 2)" "round64 (- (1 / 2)) = Fin (- (1 / 2))"
  by code_simp+

lemmas mapping_eval =
  mapEmbeddingsToPrimes_def reduceToPrimeDimensions_def slice_def initial_mappings_def
  INTRINSIC_PRIMES_def element_or_zero_def or_zero_def Array_sort_def comes_after_def
  compare_activation_def above_zero_def assign_ranks_def upt_rec Let_def round64_0
  round64_samples

lemma sample_ranking:
  "map (\<lambda>m. (prime m, normalizedActivation m, rank m)) (mapEmbeddingsToPrimes (\<lambda>x. x) sample_embedding) =
     [(3, Fin (- 1 / 2), 1), (7, Fin (1 / 2), 2), (19, Fin (1 / 2), 3), (29, Fin (- 1 / 2), 4),
      (2, Fin (1 / 4), 5), (11, Fin (1 / 4), 6), (17, Fin (- 1 / 4), 7),
      (5, Fin 0, 8), (13, Fin 0, 9), (23, Fin 0, 10)]"
  by (simp add: mapping_eval sample_embedding_def)

theorem mapEmbeddingsToPrimes_ranked_witness:
  "map (\<lambda>m. (prime m, normalizedActivation m, rank m))
       (mapEmbeddingsToPrimes (\<lambda>x. x) sample_embedding) =
     [(3, Fin (- 1 / 2), 1), (7, Fin (1 / 2), 2), (19, Fin (1 / 2), 3), (29, Fin (- 1 / 2), 4),
      (2, Fin (1 / 4), 5), (11, Fin (1 / 4), 6), (17, Fin (- 1 / 4), 7),
      (5, Fin 0, 8), (13, Fin 0, 9), (23, Fin 0, 10)]
   \<and> length (mapEmbeddingsToPrimes (\<lambda>x. x) sample_embedding) = 10
   \<and> sorted_wrt (\<lambda>a b. abs_activation b \<le> abs_activation a)
         (mapEmbeddingsToPrimes (\<lambda>x. x) sample_embedding)
   \<and> sorted_wrt (\<lambda>a b. abs_activation a = abs_activation b \<longrightarrow> prime a < prime b)
         (mapEmbeddingsToPrimes (\<lambda>x. x) sample_embedding)"
  using mapEmbeddingsToPrimes_ranked[of "\<lambda>x. x" sample_embedding] sample_ranking
  by blast

lemma reduce_short:
  assumes "length embedding < targetDims"
  shows "reduceToPrimeDimensions embedding targetDims = replicate targetDims NaN"
proof -
  have "length embedding div targetDims = 0" using assms by simp
  then show ?thesis
    unfolding reduceToPrimeDimensions_def Let_def slice_def
    by (simp add: map_replicate_const)
qed

text \<open>
  C8. For a pooled embedding of fewer than 10 components every chunk is empty and its
  mean is NaN; \<open>mapEmbeddingsToPrimes\<close> turns each into the activation 0, so it returns the
  ten registry entries in registry order with activation 0, normalized activation 0 and
  the ranks 1 to 10.
\<close>

theorem short_embedding_zero:
  assumes "length (pooledEmbedding emb) < 10"
  shows "reduceToPrimeDimensions (pooledEmbedding emb) (length INTRINSIC_PRIMES) = replicate 10 NaN
       \<and> map (\<lambda>m. (prime m, activation m, normalizedActivation m, rank m))
           (mapEmbeddingsToPrimes th emb) =
         [(2, Fin 0, Fin 0, 1), (3, Fin 0, Fin 0, 2), (5, Fin 0, Fin 0, 3), (7, Fin 0, Fin 0, 4),
          (11, Fin 0, Fin 0, 5), (13, Fin 0, Fin 0, 6), (17, Fin 0, Fin 0, 7),
          (19, Fin 0, Fin 0, 8), (23, Fin 0, Fin 0, 9), (29, Fin 0, Fin 0, 10)]"
proof -
  have len: "length INTRINSIC_PRIMES = 10" by (simp add: INTRINSIC_PRIMES_def)
  have rd: "reduceToPrimeDimensions (pooledEmbedding emb) (length INTRINSIC_PRIMES) = replicate 10 NaN"
    using reduce_short[of "pooledEmbedding emb" 10] assms by (simp add: len)
  have "map (\<lambda>m. (prime m, activation m, normalizedActivation m, rank m))
           (assign_ranks (Array_sort compare_activation (initial_mappings th (replicate 10 NaN)))) =
         [(2, Fin 0, Fin 0, 1), (3, Fin 0, Fin 0, 2), (5, Fin 0, Fin 0, 3), (7, Fin 0, Fin 0, 4),
          (11, Fin 0, Fin 0, 5), (13, Fin 0, Fin 0, 6), (17, Fin 0, Fin 0, 7),
          (19, Fin 0, Fin 0, 8), (23, Fin 0, Fin 0, 9), (29, Fin 0, Fin 0, 10)]"
    by (simp add: mapping_eval eval_nat_numeral)
  then show ?thesis
    unfolding mapEmbeddingsToPrimes_def Let_def rd by simp
qed

theorem short_embedding_zero_witness:
  "length (pooledEmbedding \<lparr>model = Xenova_gpt2, pooledEmbedding = [Fin 1, Fin (- 2), PosInf],
                            hiddenSize = 3\<rparr>) < 10
   \<and> map (\<lambda>m. (prime m, activation m, normalizedActivation m, rank m))
        (mapEmbeddingsToPrimes (\<lambda>x. x)
           \<lparr>model = Xenova_gpt2, pooledEmbedding = [Fin 1, Fin (- 2), PosInf], hiddenSize = 3\<rparr>) =
      [(2, Fin 0, Fin 0, 1), (3, Fin 0, Fin 0, 2), (5, Fin 0, Fin 0, 3), (7, Fin 0, Fin 0, 4),
       (11, Fin 0, Fin 0, 5), (13, Fin 0, Fin 0, 6), (17, Fin 0, Fin 0, 7),
       (19, Fin 0, Fin 0, 8), (23, Fin 0, Fin 0, 9), (29, Fin 0, Fin 0, 10)]"
proof -
  have h: "length (pooledEmbedding \<lparr>model = Xenova_gpt2,
             pooledEmbedding = [Fin 1, Fin (- 2), PosInf], hiddenSize = 3\<rparr>) < 10"
    by simp
  from short_embedding_zero[OF h, of "\<lambda>x. x"] h show ?thesis by simp
qed

section \<open>The G\"odel number\<close>

lemma primeMap_eq:
  "primeMap = [[0xD83C, 0xDFA9] \<mapsto> 2, [0xD83C, 0xDFB2] \<mapsto> 3, [0xD83D, 0xDD22] \<mapsto> 5,
               [0xD83C, 0xDFB6] \<mapsto> 7, [0xD83C, 0xDFB7] \<mapsto> 11, [0xD83D, 0xDCDC] \<mapsto> 13,
               [0xD83E, 0xDDEC] \<mapsto> 17, [0xD83C, 0xDFAF] \<mapsto> 19, [0xD83D, 0xDE80] \<mapsto> 23,
               [0xD83E, 0xDE90] \<mapsto> 29]"
  by (simp add: primeMap_def INTRINSIC_PRIMES_def)

lemma primeMap_ge_2: "primeMap g = Some p \<Longrightarrow> 2 \<le> p"
  unfolding primeMap_eq by (auto split: if_splits)

lemma primeMap_separator: "primeMap [0x7C] = None"
  unfolding primeMap_eq by simp

lemma primeMap_registry:
  "entry \<in> set INTRINSIC_PRIMES \<Longrightarrow>
     primeMap (EmojiPrimeMapping.emoji entry) = Some (EmojiPrimeMapping.prime entry)
     \<and> Array_from (EmojiPrimeMapping.emoji entry) = [EmojiPrimeMapping.emoji entry]"
  unfolding primeMap_eq
  by (auto simp: INTRINSIC_PRIMES_def is_high_surrogate_def is_low_surrogate_def)

lemma godel_step_factor:
  "godel_step pms acc glyph =
     (case acc of
        Inl e \<Rightarrow> Inl e
      | Inr godel \<Rightarrow> (case glyph_factor pms glyph of Inl e \<Rightarrow> Inl e | Inr f \<Rightarrow> Inr (godel * f)))"
  by (auto simp: godel_step_def glyph_factor_def split: sum.splits option.splits)

lemma BigInt_error: "BigInt x = Inl e \<Longrightarrow> e = RangeError"
  by (cases x) (auto split: if_splits)

lemma glyph_factor_error: "glyph_factor pms g = Inl e \<Longrightarrow> e = RangeError"
  by (auto simp: glyph_factor_def BigInt_pow_def dest: BigInt_error
      split: option.splits if_splits sum.splits)

lemma godel_step_Inl: "godel_step pms (Inl e) g = Inl e"
  by (simp add: godel_step_def)

lemma foldl_godel_step_Inl: "foldl (godel_step pms) (Inl e) gs = Inl e"
  by (induction gs) (simp_all add: godel_step_Inl)

lemma foldl_godel_step:
  "foldl (godel_step pms) (Inr g0) gs =
     (if \<forall>g \<in> set gs. \<not> isl (glyph_factor pms g)
      then Inr (g0 * prod_list (map (\<lambda>g. projr (glyph_factor pms g)) gs))
      else Inl RangeError)"
proof (induction gs arbitrary: g0)
  case Nil
  then show ?case by simp
next
  case (Cons g gs)
  show ?case
  proof (cases "glyph_factor pms g")
    case (Inl e)
    then have "e = RangeError" by (rule glyph_factor_error)
    then have "godel_step pms (Inr g0) g = Inl RangeError"
      using Inl by (simp add: godel_step_factor)
    then show ?thesis using Inl by (simp add: foldl_godel_step_Inl)
  next
    case (Inr f)
    then have "godel_step pms (Inr g0) g = Inr (g0 * f)"
      by (simp add: godel_step_factor)
    then show ?thesis using Inr Cons[of "g0 * f"] by (simp add: mult.assoc)
  qed
qed

lemma exponent_ge_1:
  assumes "BigInt (exponent_of pms p) = Inr ex"
  shows "1 \<le> ex"
proof (cases "find (\<lambda>m. prime m = p) pms")
  case None
  then show ?thesis using assms by (simp add: exponent_of_def)
next
  case (Some m)
  let ?x = "Math_floor (js_mul (Math_abs (normalizedActivation m)) (Fin 5))"
  have e: "exponent_of pms p = Math_max (Fin 1) ?x" using Some by (simp add: exponent_of_def)
  show ?thesis
  proof (cases ?x)
    case (Fin v)
    then show ?thesis using assms e by (auto split: if_splits simp: le_floor_iff)
  qed (use assms e in auto)
qed

lemma glyph_factor_ge_1:
  assumes "glyph_factor pms g = Inr f"
  shows "1 \<le> f \<and> raw_factor g dvd f"
proof (cases "primeMap g")
  case None
  then show ?thesis using assms by (simp add: glyph_factor_def raw_factor_def)
next
  case (Some p)
  then have p: "2 \<le> p" by (rule primeMap_ge_2)
  then have p0: "p \<noteq> 0" by simp
  obtain ex where ex: "BigInt (exponent_of pms p) = Inr ex" and f: "BigInt_pow p ex = Inr f"
    using assms Some p0 by (auto simp: glyph_factor_def split: sum.splits)
  have "1 \<le> ex" using ex by (rule exponent_ge_1)
  then have fe: "f = p ^ nat ex" "0 < nat ex" using f by (auto simp: BigInt_pow_def)
  have "1 \<le> p ^ nat ex" using p by (simp add: one_le_power)
  moreover have "p dvd p ^ nat ex" using fe(2) by (simp add: dvd_power)
  ultimately show ?thesis using fe Some p0 by (simp add: raw_factor_def)
qed

lemma prod_list_ge_1: "(\<forall>x \<in> set xs. (1::int) \<le> x) \<Longrightarrow> 1 \<le> prod_list xs"
proof (induction xs)
  case Nil
  then show ?case by simp
next
  case (Cons x xs)
  then have "1 \<le> x" "1 \<le> prod_list xs" by simp_all
  then have "1 * 1 \<le> x * prod_list xs" by (intro mult_mono) simp_all
  then show ?case by simp
qed

lemma prod_list_dvd:
  "(\<forall>x \<in> set xs. (f x :: int) dvd h x) \<Longrightarrow> prod_list (map f xs) dvd prod_list (map h xs)"
  by (induction xs) (simp_all add: mult_dvd_mono)

lemma prod_list_ones: "prod_list (map (\<lambda>g. 1::int) xs) = 1"
  by (induction xs) simp_all

lemma encodeAsGodel_number:
  "map_sum id godelNumber (encodeAsGodel seg pms) =
     (if \<forall>g \<in> set (Array_from seg). \<not> isl (glyph_factor pms g)
      then Inr (prod_list (map (\<lambda>g. projr (glyph_factor pms g)) (Array_from seg)))
      else Inl RangeError)"
  by (simp add: encodeAsGodel_def foldl_godel_step)


lemma dom_primeMap: "dom primeMap = EmojiPrimeMapping.emoji ` set INTRINSIC_PRIMES"
  unfolding primeMap_eq by (simp add: INTRINSIC_PRIMES_def) blast

lemma exponent_value:
  assumes "find (\<lambda>m. prime m = p) pms = Some m"
    and "js_mul (Math_abs (normalizedActivation m)) (Fin 5) = Fin v"
  shows "BigInt (exponent_of pms p) = Inr (max 1 \<lfloor>v\<rfloor>)"
proof -
  have "max (1::rat) (of_int \<lfloor>v\<rfloor>) = of_int (max 1 \<lfloor>v\<rfloor>)" by (simp add: max_def)
  then show ?thesis using assms by (simp add: exponent_of_def del: of_int_max)
qed

lemma encodable_factor:
  assumes "\<forall>m \<in> set pms. encodable m"
  shows "\<not> isl (glyph_factor pms g)"
proof (cases "primeMap g")
  case None
  then show ?thesis by (simp add: glyph_factor_def)
next
  case (Some p)
  show ?thesis
  proof (cases "find (\<lambda>m. prime m = p) pms")
    case None
    then show ?thesis using Some
      by (simp add: glyph_factor_def exponent_of_def BigInt_pow_def)
  next
    case m: (Some m)
    then have "m \<in> set pms" by (auto simp: find_Some_iff)
    then have "encodable m" using assms by blast
    then obtain v where "js_mul (Math_abs (normalizedActivation m)) (Fin 5) = Fin v"
      unfolding encodable_def by (auto split: number.splits)
    from exponent_value[OF m this] show ?thesis using Some
      by (simp add: glyph_factor_def BigInt_pow_def)
  qed
qed

lemma encodable_returns:
  assumes "\<forall>m \<in> set pms. encodable m"
  shows "\<exists>r. encodeAsGodel seg pms = Inr r"
proof -
  have "\<forall>g \<in> set (Array_from seg). \<not> isl (glyph_factor pms g)"
    using assms encodable_factor by blast
  then have "\<not> isl (map_sum id godelNumber (encodeAsGodel seg pms))"
    by (simp add: encodeAsGodel_number)
  then show ?thesis by (cases "encodeAsGodel seg pms") auto
qed

lemma normalized_product:
  assumes "\<bar>a\<bar> \<le> 1"
  shows "\<exists>v. js_mul (Math_abs (Fin a)) (Fin 5) = Fin v \<and> 0 \<le> v \<and> v \<le> 5"
proof -
  have "\<bar>\<bar>a\<bar> * 5\<bar> \<le> of_int 5" using assms by simp
  from round64_bounded[OF this] obtain r where
    "round64 (\<bar>a\<bar> * 5) = Fin r" "\<bar>r\<bar> \<le> 5" "0 \<le> r" by auto
  then show ?thesis by auto
qed

lemma well_normalized_encodable: "well_normalized m \<Longrightarrow> encodable m"
  unfolding well_normalized_def encodable_def
  using normalized_product by fastforce

text \<open>
  C2. Whatever the segment text and the prime mappings, a G\"odel number that
  \<open>encodeAsGodel\<close> returns is an unbounded integer of at least 1; when no code point of the
  segment is a glyph of the registry the function returns, and the number is exactly 1
  (the empty product); and the function returns whenever every mapping is encodable.
\<close>

theorem godelNumber_ge_1:
  "(\<forall>r. encodeAsGodel seg pms = Inr r \<longrightarrow> 1 \<le> godelNumber r)
   \<and> ((\<forall>g \<in> set (Array_from seg). g \<notin> EmojiPrimeMapping.emoji ` set INTRINSIC_PRIMES) \<longrightarrow>
        (\<exists>r. encodeAsGodel seg pms = Inr r \<and> godelNumber r = 1))
   \<and> ((\<forall>m \<in> set pms. encodable m) \<longrightarrow> (\<exists>r. encodeAsGodel seg pms = Inr r))"
proof (intro conjI allI impI)
  fix r assume r: "encodeAsGodel seg pms = Inr r"
  let ?gs = "Array_from seg"
  have ok: "\<forall>g \<in> set ?gs. \<not> isl (glyph_factor pms g)"
    and g: "godelNumber r = prod_list (map (\<lambda>g. projr (glyph_factor pms g)) ?gs)"
    using encodeAsGodel_number[of seg pms] r by (auto split: if_splits)
  have "\<forall>x \<in> set (map (\<lambda>g. projr (glyph_factor pms g)) ?gs). 1 \<le> x"
  proof
    fix x assume "x \<in> set (map (\<lambda>g. projr (glyph_factor pms g)) ?gs)"
    then obtain g where "g \<in> set ?gs" "x = projr (glyph_factor pms g)" by auto
    then have "glyph_factor pms g = Inr x" using ok by (cases "glyph_factor pms g") auto
    then show "1 \<le> x" using glyph_factor_ge_1 by blast
  qed
  then show "1 \<le> godelNumber r" unfolding g by (rule prod_list_ge_1)
next
  assume none: "\<forall>g \<in> set (Array_from seg). g \<notin> EmojiPrimeMapping.emoji ` set INTRINSIC_PRIMES"
  have f: "glyph_factor pms g = Inr 1" if "g \<in> set (Array_from seg)" for g
  proof -
    have "g \<notin> dom primeMap" using none that unfolding dom_primeMap by blast
    then show ?thesis by (auto simp: glyph_factor_def split: option.splits)
  qed
  then have m: "map (\<lambda>g. projr (glyph_factor pms g)) (Array_from seg) = map (\<lambda>g. 1) (Array_from seg)"
    by simp
  have "map_sum id godelNumber (encodeAsGodel seg pms) = Inr 1"
    unfolding encodeAsGodel_number m prod_list_ones using f by simp
  then show "\<exists>r. encodeAsGodel seg pms = Inr r \<and> godelNumber r = 1"
    by (cases "encodeAsGodel seg pms") auto
next
  assume "\<forall>m \<in> set pms. encodable m"
  then show "\<exists>r. encodeAsGodel seg pms = Inr r" by (rule encodable_returns)
qed


lemma sample_encoding:
  "encodeAsGodel sample_tape sample_mappings =
     Inr \<lparr>tapeSegment = sample_tape, godelNumber = 192, primeMappings = sample_mappings,
          hierarchy = \<lparr>size_h = 7, program = sample_tape, cycles = 1\<rparr>\<rparr>"
  by code_simp

lemma sample_encodable: "\<forall>m \<in> set sample_mappings. encodable m"
  by code_simp

theorem godelNumber_ge_1_witness:
  "encodeAsGodel sample_tape sample_mappings =
     Inr \<lparr>tapeSegment = sample_tape, godelNumber = 192, primeMappings = sample_mappings,
          hierarchy = \<lparr>size_h = 7, program = sample_tape, cycles = 1\<rparr>\<rparr>
   \<and> (1::int) \<le> 192
   \<and> (\<exists>r. encodeAsGodel [0x41, 0x7C, 0xD83C] sample_mappings = Inr r \<and> godelNumber r = 1)"
proof -
  have none: "\<forall>g \<in> set (Array_from [0x41, 0x7C, 0xD83C]).
                g \<notin> EmojiPrimeMapping.emoji ` set INTRINSIC_PRIMES"
    by (simp add: INTRINSIC_PRIMES_def is_high_surrogate_def is_low_surrogate_def)
  from godelNumber_ge_1[of "[0x41, 0x7C, 0xD83C]" sample_mappings] none
       godelNumber_ge_1[of sample_tape sample_mappings] sample_encoding
  show ?thesis by auto
qed

text \<open>
  C3. Take a segment that is one glyph of the registry, with prime \<open>p\<close>, and the first
  mapping of the list with that prime. When five times the absolute value of its
  normalized activation is the finite number \<open>v\<close>, \<open>encodeAsGodel\<close> returns the G\"odel
  number \<open>p\<close> to the power \<open>max(1, floor(v))\<close>, an integer exponent of at least 1; and when
  the normalized activation is a finite number of absolute value at most 1, as every
  hyperbolic tangent is, the product is finite and the exponent is at most 5.
\<close>

theorem one_glyph_godel:
  assumes "entry \<in> set INTRINSIC_PRIMES"
    and "find (\<lambda>m. prime m = EmojiPrimeMapping.prime entry) pms = Some mapping"
  shows "(\<forall>v. js_mul (Math_abs (normalizedActivation mapping)) (Fin 5) = Fin v \<longrightarrow>
            (\<exists>r. encodeAsGodel (EmojiPrimeMapping.emoji entry) pms = Inr r
                 \<and> godelNumber r = EmojiPrimeMapping.prime entry ^ nat (max 1 \<lfloor>v\<rfloor>)
                 \<and> 1 \<le> max 1 \<lfloor>v\<rfloor>))
       \<and> (\<forall>a. normalizedActivation mapping = Fin a \<and> \<bar>a\<bar> \<le> 1 \<longrightarrow>
            (\<exists>v. js_mul (Math_abs (normalizedActivation mapping)) (Fin 5) = Fin v
                 \<and> max 1 \<lfloor>v\<rfloor> \<le> 5))"
proof (intro conjI allI impI)
  fix v assume v: "js_mul (Math_abs (normalizedActivation mapping)) (Fin 5) = Fin v"
  let ?p = "EmojiPrimeMapping.prime entry"
  let ?g = "EmojiPrimeMapping.emoji entry"
  have pm: "primeMap ?g = Some ?p" and af: "Array_from ?g = [?g]"
    using primeMap_registry[OF assms(1)] by simp_all
  have p: "2 \<le> ?p" using pm by (rule primeMap_ge_2)
  have ex: "BigInt (exponent_of pms ?p) = Inr (max 1 \<lfloor>v\<rfloor>)"
    using exponent_value[OF assms(2) v] .
  have gf: "glyph_factor pms ?g = Inr (?p ^ nat (max 1 \<lfloor>v\<rfloor>))"
    using pm p ex by (simp add: glyph_factor_def BigInt_pow_def)
  have "map_sum id godelNumber (encodeAsGodel ?g pms) = Inr (?p ^ nat (max 1 \<lfloor>v\<rfloor>))"
    unfolding encodeAsGodel_number af using gf by simp
  then obtain r where "encodeAsGodel ?g pms = Inr r"
      "godelNumber r = ?p ^ nat (max 1 \<lfloor>v\<rfloor>)"
    by (cases "encodeAsGodel ?g pms") auto
  then show "\<exists>r. encodeAsGodel ?g pms = Inr r
                 \<and> godelNumber r = ?p ^ nat (max 1 \<lfloor>v\<rfloor>) \<and> 1 \<le> max 1 \<lfloor>v\<rfloor>"
    by auto
next
  fix a assume a: "normalizedActivation mapping = Fin a \<and> \<bar>a\<bar> \<le> 1"
  then obtain v where v: "js_mul (Math_abs (Fin a)) (Fin 5) = Fin v" "0 \<le> v" "v \<le> 5"
    using normalized_product[of a] by blast
  have "\<lfloor>v\<rfloor> \<le> 5" using v(3) by (simp add: floor_le_iff)
  then have "max 1 \<lfloor>v\<rfloor> \<le> 5" by simp
  then show "\<exists>v. js_mul (Math_abs (normalizedActivation mapping)) (Fin 5) = Fin v
                 \<and> max 1 \<lfloor>v\<rfloor> \<le> 5"
    using v(1) a by auto
qed

lemma sample_product: "js_mul (Math_abs (Fin (3 / 4))) (Fin 5) = Fin (15 / 4)"
  by code_simp

theorem one_glyph_godel_witness:
  "(\<exists>r. encodeAsGodel [0xD83C, 0xDFA9] sample_mappings = Inr r \<and> godelNumber r = 2 ^ 3)
   \<and> js_mul (Math_abs (Fin (3 / 4))) (Fin 5) = Fin (15 / 4)
   \<and> max 1 \<lfloor>15 / 4 :: rat\<rfloor> = 3"
proof -
  have e: "hd INTRINSIC_PRIMES \<in> set INTRINSIC_PRIMES"
    by (simp add: INTRINSIC_PRIMES_def)
  have g: "EmojiPrimeMapping.emoji (hd INTRINSIC_PRIMES) = [0xD83C, 0xDFA9]"
      "EmojiPrimeMapping.prime (hd INTRINSIC_PRIMES) = 2"
    by (simp_all add: INTRINSIC_PRIMES_def)
  have f: "find (\<lambda>m. prime m = EmojiPrimeMapping.prime (hd INTRINSIC_PRIMES)) sample_mappings
             = Some (hd sample_mappings)"
    by (simp add: sample_mappings_def g)
  have n: "normalizedActivation (hd sample_mappings) = Fin (3 / 4)"
    by (simp add: sample_mappings_def)
  have fl: "max 1 \<lfloor>15 / 4 :: rat\<rfloor> = 3" by code_simp
  have v: "js_mul (Math_abs (normalizedActivation (hd sample_mappings))) (Fin 5) = Fin (15 / 4)"
    unfolding n by (rule sample_product)
  from one_glyph_godel[OF e f] v obtain r where
    r: "encodeAsGodel (EmojiPrimeMapping.emoji (hd INTRINSIC_PRIMES)) sample_mappings = Inr r"
      "godelNumber r =
         EmojiPrimeMapping.prime (hd INTRINSIC_PRIMES) ^ nat (max 1 \<lfloor>15 / 4 :: rat\<rfloor>)"
    by blast
  have "godelNumber r = 2 ^ 3" using r(2) unfolding fl g(2) by simp
  then show ?thesis using r(1) g(1) sample_product fl by auto
qed

text \<open>
  The product \<open>abs(a) * 5\<close> is a binary64 product: for the number nearest to 0.6 it
  rounds up to 3, although the exact product is below 3.
\<close>

lemma rounded_product_example:
  "round64 (6 / 10) = Fin (5404319552844595 / 2 ^ 53)"
  "5404319552844595 / 2 ^ 53 * 5 < (3::rat)"
  "js_mul (Math_abs (Fin (5404319552844595 / 2 ^ 53))) (Fin 5) = Fin 3"
  by code_simp+

text \<open>
  C9. Two segment texts whose code points are permutations of each other get the same
  outcome from \<open>encodeAsGodel\<close> for every list of prime mappings: the same G\"odel number,
  or the RangeError in both cases.
\<close>

theorem godel_permutation:
  assumes "mset (Array_from seg1) = mset (Array_from seg2)"
  shows "map_sum id godelNumber (encodeAsGodel seg1 pms) =
         map_sum id godelNumber (encodeAsGodel seg2 pms)"
proof -
  let ?f = "\<lambda>g. projr (glyph_factor pms g)"
  have s: "set (Array_from seg1) = set (Array_from seg2)"
    using assms by (rule mset_eq_setD)
  have "mset (map ?f (Array_from seg1)) = mset (map ?f (Array_from seg2))"
    using assms by simp
  then have "prod_mset (mset (map ?f (Array_from seg1))) = prod_mset (mset (map ?f (Array_from seg2)))"
    by simp
  then have "prod_list (map ?f (Array_from seg1)) = prod_list (map ?f (Array_from seg2))"
    by (simp only: prod_mset_prod_list)
  then show ?thesis unfolding encodeAsGodel_number s by simp
qed

theorem godel_permutation_witness:
  "mset (Array_from sample_tape) = mset (Array_from sample_tape_permuted)
   \<and> map_sum id godelNumber (encodeAsGodel sample_tape_permuted sample_mappings) = Inr 192"
proof -
  have m: "mset (Array_from sample_tape) = mset (Array_from sample_tape_permuted)"
    by (simp add: sample_tape_def sample_tape_permuted_def is_high_surrogate_def
        is_low_surrogate_def)
  from godel_permutation[OF m, of sample_mappings] m sample_encoding
  show ?thesis by simp
qed

lemma Array_from_not_high:
  "\<not> is_high_surrogate c \<Longrightarrow> Array_from (c # cs) = [c] # Array_from cs"
  by (cases cs) simp_all

lemma separator_not_surrogate:
  "\<not> is_high_surrogate 0x7C" "\<not> is_low_surrogate 0x7C"
  by (simp_all add: is_high_surrogate_def is_low_surrogate_def)

lemma Array_from_strip:
  "well_formed t \<Longrightarrow>
     Array_from (strip_separators t) = filter (\<lambda>g. g \<noteq> [0x7C]) (Array_from t)"
proof (induction t rule: Array_from.induct)
  case 1
  then show ?case by (simp add: strip_separators_def)
next
  case (2 c)
  then show ?case by (simp add: strip_separators_def)
next
  case (3 c d cs)
  show ?case
  proof (cases "is_high_surrogate c")
    case True
    then have d: "is_low_surrogate d" and wf: "well_formed cs" using 3(3) by simp_all
    have "c \<noteq> 0x7C" "d \<noteq> 0x7C" using True d separator_not_surrogate by auto
    then show ?thesis using True d wf 3(1)
      by (simp add: strip_separators_def)
  next
    case False
    then have wf: "well_formed (d # cs)" using 3(3) by simp
    have ih: "Array_from (strip_separators (d # cs)) =
                filter (\<lambda>g. g \<noteq> [0x7C]) (Array_from (d # cs))"
      using 3(2) False wf by simp
    show ?thesis
    proof (cases "c = 0x7C")
      case True
      then show ?thesis using False ih by (simp add: strip_separators_def)
    next
      case c: False
      have "Array_from (strip_separators (c # d # cs)) =
              [c] # Array_from (strip_separators (d # cs))"
        using c False Array_from_not_high[of c "strip_separators (d # cs)"]
        by (simp add: strip_separators_def)
      then show ?thesis using False c ih by simp
    qed
  qed
qed

lemma foldl_raw:
  "foldl (\<lambda>godel glyph. case primeMap glyph of None \<Rightarrow> godel
                          | Some p \<Rightarrow> if p = 0 then godel else godel * p) g0 gs
   = g0 * prod_list (map raw_factor gs)"
  by (induction gs arbitrary: g0)
     (auto simp: raw_factor_def mult.assoc split: option.splits)

lemma raw_factor_separator: "raw_factor [0x7C] = 1"
  by (simp add: raw_factor_def primeMap_separator)

lemma prod_list_filter_ones:
  "(\<forall>x \<in> set xs. \<not> P x \<longrightarrow> f x = (1::int)) \<Longrightarrow>
     prod_list (map f (filter P xs)) = prod_list (map f xs)"
  by (induction xs) simp_all

lemma calculateGodelNumber_product:
  assumes "well_formed t"
  shows "calculateGodelNumber t = prod_list (map raw_factor (Array_from t))"
proof -
  have "calculateGodelNumber t =
          prod_list (map raw_factor (filter (\<lambda>g. g \<noteq> [0x7C]) (Array_from t)))"
    unfolding calculateGodelNumber_def foldl_raw Array_from_strip[OF assms] by simp
  also have "\<dots> = prod_list (map raw_factor (Array_from t))"
    by (rule prod_list_filter_ones) (simp add: raw_factor_separator)
  finally show ?thesis .
qed

text \<open>
  C10. For a tape that is well-formed UTF-16, the display layer's number (one raw prime
  per recognised glyph, separators stripped) divides every G\"odel number that
  \<open>encodeAsGodel\<close> returns for the tape, whatever the prime mappings; and the function
  returns whenever every mapping is encodable, in particular when no normalized
  activation is NaN or infinite and none is so large that five times it overflows.
\<close>

theorem display_divides_core:
  assumes "well_formed t"
  shows "(\<forall>r. encodeAsGodel t pms = Inr r \<longrightarrow> calculateGodelNumber t dvd godelNumber r)
       \<and> ((\<forall>m \<in> set pms. encodable m) \<longrightarrow> (\<exists>r. encodeAsGodel t pms = Inr r))"
proof (intro conjI allI impI)
  fix r assume r: "encodeAsGodel t pms = Inr r"
  let ?gs = "Array_from t"
  have ok: "\<forall>g \<in> set ?gs. \<not> isl (glyph_factor pms g)"
    and g: "godelNumber r = prod_list (map (\<lambda>g. projr (glyph_factor pms g)) ?gs)"
    using encodeAsGodel_number[of t pms] r by (auto split: if_splits)
  have "\<forall>g \<in> set ?gs. raw_factor g dvd projr (glyph_factor pms g)"
  proof
    fix g assume "g \<in> set ?gs"
    then obtain f where "glyph_factor pms g = Inr f"
      using ok by (cases "glyph_factor pms g") auto
    then show "raw_factor g dvd projr (glyph_factor pms g)"
      using glyph_factor_ge_1 by fastforce
  qed
  then show "calculateGodelNumber t dvd godelNumber r"
    unfolding g calculateGodelNumber_product[OF assms] by (rule prod_list_dvd)
next
  assume "\<forall>m \<in> set pms. encodable m"
  then show "\<exists>r. encodeAsGodel t pms = Inr r" by (rule encodable_returns)
qed

lemma sample_display: "calculateGodelNumber sample_tape = 12"
  by code_simp

theorem display_divides_core_witness:
  "well_formed sample_tape
   \<and> calculateGodelNumber sample_tape = 12
   \<and> map_sum id godelNumber (encodeAsGodel sample_tape sample_mappings) = Inr 192
   \<and> (12::int) dvd 192"
proof -
  have wf: "well_formed sample_tape"
    by (simp add: sample_tape_def is_high_surrogate_def is_low_surrogate_def)
  from display_divides_core[OF wf, of sample_mappings] wf sample_encoding sample_display
  show ?thesis by simp
qed

text \<open>
  Well-formedness is needed: stripping the separator can join two unpaired surrogates
  into a glyph of the registry that the tape itself does not contain.
\<close>

lemma lone_surrogate_display:
  "calculateGodelNumber [0xD83C, 0x7C, 0xDFA9] = 2
   \<and> map_sum id godelNumber (encodeAsGodel [0xD83C, 0x7C, 0xDFA9] sample_mappings) = Inr 1
   \<and> \<not> well_formed [0xD83C, 0x7C, 0xDFA9]"
  by code_simp

section \<open>The variance\<close>

lemma foldl_map_fuse: "foldl (\<lambda>s v. g s (f v)) a xs = foldl g a (map f xs)"
  by (induction xs arbitrary: a) simp_all

lemma variance_is_population:
  "calculatePrime2Variance rs =
     population_variance (map (\<lambda>r. prime2Activation (universalAnchor r)) rs)"
proof -
  define xs where "xs = map (\<lambda>r. prime2Activation (universalAnchor r)) rs"
  define m where "m = js_div (foldl js_add (Fin 0) xs) (Fin (of_nat (length xs)))"
  have "foldl (\<lambda>sum val. js_add sum (Math_pow_2 (js_sub val m))) (Fin 0) xs =
        foldl js_add (Fin 0) (map (\<lambda>x. Math_pow_2 (js_sub x m)) xs)"
    by (rule foldl_map_fuse)
  then show ?thesis
    unfolding calculatePrime2Variance_def population_variance_def mean_of_def sum_numbers_def
      Let_def xs_def[symmetric] m_def[symmetric]
    by (simp only:)
qed

lemma sum_zeros: "sum_numbers (replicate n (Fin 0)) = Fin 0"
proof -
  have "foldl js_add (Fin 0) (replicate n (Fin 0)) = Fin 0"
    by (induction n) (simp_all add: round64_0)
  then show ?thesis by (simp add: sum_numbers_def)
qed

lemma variance_constant:
  assumes "0 < n" and "mean_of (replicate n (Fin q)) = Fin q"
  shows "population_variance (replicate n (Fin q)) = Fin 0"
proof -
  have "map (\<lambda>x. Math_pow_2 (js_sub x (Fin q))) (replicate n (Fin q)) = replicate n (Fin 0)"
    by (simp add: Math_pow_2_def round64_0)
  then show ?thesis
    using assms by (simp add: population_variance_def sum_zeros round64_0)
qed

lemma mean_single:
  assumes "is_double (Fin q)"
  shows "mean_of [Fin q] = Fin q"
  using assms by (simp add: mean_of_def sum_numbers_def is_double_def)

lemma tenth_steps:
  "js_add (Fin 0) (Fin one_tenth) = Fin one_tenth"
  "js_add (Fin one_tenth) (Fin one_tenth) = Fin (2 * one_tenth)"
  "js_add (Fin (2 * one_tenth)) (Fin one_tenth) = Fin (5404319552844596 / 2 ^ 54)"
  "js_div (Fin (5404319552844596 / 2 ^ 54)) (Fin 3) = Fin (7205759403792795 / 2 ^ 56)"
  "js_sub (Fin one_tenth) (Fin (7205759403792795 / 2 ^ 56)) = Fin (- 1 / 2 ^ 56)"
  "Math_pow_2 (Fin (- 1 / 2 ^ 56)) = Fin (1 / 2 ^ 112)"
  "js_add (Fin 0) (Fin (1 / 2 ^ 112)) = Fin (1 / 2 ^ 112)"
  "js_add (Fin (1 / 2 ^ 112)) (Fin (1 / 2 ^ 112)) = Fin (2 / 2 ^ 112)"
  "js_add (Fin (2 / 2 ^ 112)) (Fin (1 / 2 ^ 112)) = Fin (3 / 2 ^ 112)"
  "js_div (Fin (3 / 2 ^ 112)) (Fin 3) = Fin (1 / 2 ^ 112)"
  by code_simp+

lemma three_tenths_mean:
  "mean_of [Fin one_tenth, Fin one_tenth, Fin one_tenth] = Fin (7205759403792795 / 2 ^ 56)"
proof -
  have "Fin (of_nat (length [Fin one_tenth, Fin one_tenth, Fin one_tenth])) = Fin 3" by simp
  then show ?thesis
    unfolding mean_of_def sum_numbers_def by (simp only: foldl.simps tenth_steps)
qed

lemma three_tenths_variance:
  "population_variance [Fin one_tenth, Fin one_tenth, Fin one_tenth] = Fin (1 / 2 ^ 112)"
proof -
  have "Fin (of_nat (length [Fin one_tenth, Fin one_tenth, Fin one_tenth])) = Fin 3" by simp
  then show ?thesis
    unfolding population_variance_def three_tenths_mean sum_numbers_def
    by (simp only: foldl.simps list.map tenth_steps)
qed

theorem variance_counterexample:
  "is_double (Fin one_tenth)
   \<and> calculatePrime2Variance
        [result_with (Fin one_tenth), result_with (Fin one_tenth), result_with (Fin one_tenth)]
       = Fin (1 / 2 ^ 112)
   \<and> Fin (1 / 2 ^ 112) \<noteq> Fin 0"
proof -
  have d: "is_double (Fin one_tenth)" by code_simp
  have "map (\<lambda>r. prime2Activation (universalAnchor r))
          [result_with (Fin one_tenth), result_with (Fin one_tenth), result_with (Fin one_tenth)]
        = [Fin one_tenth, Fin one_tenth, Fin one_tenth]"
    by (simp add: result_with_def)
  then have "calculatePrime2Variance
        [result_with (Fin one_tenth), result_with (Fin one_tenth), result_with (Fin one_tenth)]
       = Fin (1 / 2 ^ 112)"
    unfolding variance_is_population by (simp only: three_tenths_variance)
  then show ?thesis using d by simp
qed

text \<open>
  C7, amended. \<open>calculatePrime2Variance\<close> returns the population variance of the prime-2
  activations in binary64 arithmetic: the sum of the squared deviations from the mean,
  divided by the count and not by the count less one. For a single result whose
  activation is a finite binary64 number it returns exactly 0. For any positive number of
  results with the same finite activation it returns 0 whenever the computed mean is that
  activation.
\<close>

theorem variance_population:
  "calculatePrime2Variance rs =
     population_variance (map (\<lambda>r. prime2Activation (universalAnchor r)) rs)
   \<and> (is_double (Fin q) \<longrightarrow> calculatePrime2Variance [result_with (Fin q)] = Fin 0)
   \<and> (0 < n \<and> mean_of (replicate n (Fin q)) = Fin q \<longrightarrow>
        calculatePrime2Variance (replicate n (result_with (Fin q))) = Fin 0)"
proof (intro conjI impI)
  show "calculatePrime2Variance rs =
     population_variance (map (\<lambda>r. prime2Activation (universalAnchor r)) rs)"
    by (rule variance_is_population)
next
  assume d: "is_double (Fin q)"
  have "population_variance (replicate 1 (Fin q)) = Fin 0"
    by (rule variance_constant) (simp_all add: mean_single[OF d])
  then show "calculatePrime2Variance [result_with (Fin q)] = Fin 0"
    by (simp add: variance_is_population result_with_def)
next
  assume "0 < n \<and> mean_of (replicate n (Fin q)) = Fin q"
  then have "population_variance (replicate n (Fin q)) = Fin 0"
    using variance_constant by blast
  then show "calculatePrime2Variance (replicate n (result_with (Fin q))) = Fin 0"
    by (simp add: variance_is_population result_with_def)
qed

theorem variance_population_witness:
  "is_double (Fin (1 / 2))
   \<and> calculatePrime2Variance [result_with (Fin (1 / 2))] = Fin 0
   \<and> mean_of (replicate 2 (Fin (1 / 2))) = Fin (1 / 2)
   \<and> calculatePrime2Variance (replicate 2 (result_with (Fin (1 / 2)))) = Fin 0"
proof -
  have d: "is_double (Fin (1 / 2))" by code_simp
  have m: "mean_of (replicate 2 (Fin (1 / 2))) = Fin (1 / 2)" by code_simp
  from variance_population[of "[]" "1 / 2" 2] d m show ?thesis by simp
qed

end
